theory Spec2Isabelle
  imports Main "HOL-Library.Word"
begin

section \<open>Bytes, sizes and the file header\<close>

text \<open>
  The archives of \<^verbatim>\<open>serialization.h\<close> copy object representations into byte buffers.
  A byte is an 8-bit word.  The target is taken to be an LP64 little-endian machine
  (\<^verbatim>\<open>sizeof(size_t) = 8\<close>, \<^verbatim>\<open>sizeof(int) = 4\<close>, pointers of 8 bytes); a value of type
  \<^verbatim>\<open>size_t\<close> is a natural number below \<open>2 ^ 64\<close>, and the one subtraction of the source
  that can wrap is written with \<open>size_t_sub\<close>.
\<close>

type_synonym byte = "8 word"
type_synonym bytes = "byte list"

definition BLOCK_BYTES :: nat where
  "BLOCK_BYTES = 1024 * 64"

definition size_t_sub :: "nat \<Rightarrow> nat \<Rightarrow> nat" where
  "size_t_sub a b = (a + 2 ^ 64 - b mod 2 ^ 64) mod 2 ^ 64"

text \<open>The object representation of an unsigned integer of \<open>n\<close> bytes, and its value.\<close>

primrec le_bytes :: "nat \<Rightarrow> nat \<Rightarrow> bytes" where
  "le_bytes 0 v = []"
| "le_bytes (Suc n) v = of_nat (v mod 256) # le_bytes n (v div 256)"

fun le_nat :: "bytes \<Rightarrow> nat" where
  "le_nat [] = 0"
| "le_nat (b # bs) = unat b + 256 * le_nat bs"

text \<open>
  \<^verbatim>\<open>struct IndexHeaderStruct\<close>: signature[24], version[16], data_type (4), index_type (4),
  rows, cols, compression, first_block_size (8 each); 80 bytes without padding.  The
  code reinterprets the start of a buffer as this struct, so the fields are read and
  patched at their offsets in the byte list.
\<close>

record IndexHeaderStruct =
  signature :: bytes
  version :: bytes
  data_type :: nat
  index_type :: nat
  rows :: nat
  cols :: nat
  compression :: nat
  first_block_size :: nat

definition headSz :: nat where
  "headSz = 80"

definition fixed_field :: "nat \<Rightarrow> bytes \<Rightarrow> bytes" where
  "fixed_field n bs = take n bs @ replicate (n - length bs) 0"

definition header_bytes :: "IndexHeaderStruct \<Rightarrow> bytes" where
  "header_bytes h =
     fixed_field 24 (signature h) @ fixed_field 16 (version h) @
     le_bytes 4 (data_type h) @ le_bytes 4 (index_type h) @
     le_bytes 8 (rows h) @ le_bytes 8 (cols h) @
     le_bytes 8 (compression h) @ le_bytes 8 (first_block_size h)"

definition head_signature :: "bytes \<Rightarrow> bytes" where
  "head_signature buf = take 24 buf"

definition head_version :: "bytes \<Rightarrow> bytes" where
  "head_version buf = take 16 (drop 24 buf)"

definition head_compression :: "bytes \<Rightarrow> nat" where
  "head_compression buf = le_nat (take 8 (drop 64 buf))"

definition head_first_block_size :: "bytes \<Rightarrow> nat" where
  "head_first_block_size buf = le_nat (take 8 (drop 72 buf))"

definition set_compression :: "bytes \<Rightarrow> nat \<Rightarrow> bytes" where
  "set_compression buf v = take 64 buf @ le_bytes 8 v @ drop 72 buf"

definition set_first_block_size :: "bytes \<Rightarrow> nat \<Rightarrow> bytes" where
  "set_first_block_size buf v = take 72 buf @ le_bytes 8 v @ drop 80 buf"

text \<open>\<^verbatim>\<open>memcpy(buf + off, src, n)\<close> on the written part of a buffer.\<close>

definition memcpy_at :: "bytes \<Rightarrow> nat \<Rightarrow> bytes \<Rightarrow> bytes" where
  "memcpy_at buf off src = take off buf @ src @ drop (off + length src) buf"

section \<open>The environment: LZ4 and the allocator\<close>

text \<open>
  The LZ4 library is called, not defined, by the repository.  Its entry points are
  parameters of the model.  A streaming context is represented by the list of blocks
  it has processed so far (the dictionary the next call may refer to).
  \<^item> \<open>LZ4_compress_HC_continue ctx src cap\<close> is the compressed output; its length is the
    call's return value, so the empty list is the return value 0;
  \<^item> \<open>LZ4_decompress_safe_continue ctx src cap\<close> is \<open>None\<close> for a negative return value and
    otherwise the decompressed bytes, whose length is the return value;
  \<^item> \<open>LZ4_decompress_safe src n cap\<close> gives the return value and the bytes written;
  \<^item> \<open>LZ4_COMPRESSBOUND\<close> is the macro of \<^verbatim>\<open>lz4.h\<close>;
  \<^item> \<open>malloc_ok n\<close> tells whether an allocation of \<open>n\<close> bytes succeeds.
\<close>

record env =
  LZ4_compress_HC_continue :: "bytes list \<Rightarrow> bytes \<Rightarrow> nat \<Rightarrow> bytes"
  LZ4_decompress_safe_continue :: "bytes list \<Rightarrow> bytes \<Rightarrow> nat \<Rightarrow> bytes option"
  LZ4_decompress_safe :: "bytes \<Rightarrow> int \<Rightarrow> int \<Rightarrow> int \<times> bytes"
  LZ4_COMPRESSBOUND :: "nat \<Rightarrow> nat"
  malloc_ok :: "nat \<Rightarrow> bool"

text \<open>
  Every \<^verbatim>\<open>throw FLANNException\<close> of the source is one constructor; the two assertions
  and the two reads the C code performs without a check are results of their own.
\<close>

datatype error =
    AllocCompressionBuffer
  | CompressingFirstBlock
  | Compressing
  | AllocFileBuffer
  | ReadCompressed
  | CompressionNotSupported
  | AllocDecompressionBuffer
  | UnexpectedDecompressionSize
  | AllocHeaderBuffer
  | ReadHeader
  | BlockSizeTooLarge
  | ReadBlock
  | DecompressBlock
  | PastEndOfFile
  | ReadEnd
  | LastBlockNotZero
  | AssertSizeof
  | AssertCompression
  | UninitialisedHeader
  | SizeUnderflow
  | NullBuffer

section \<open>SaveArchive\<close>

text \<open>
  The members are written without their trailing underscore (\<open>stream\<close> is
  \<^verbatim>\<open>stream_\<close>), which Isabelle does not accept in a name.  \<open>stream\<close> holds the bytes
  written to the file so far (\<^verbatim>\<open>fwrite\<close> appends, and its return value is ignored by
  the source).  \<open>buffer\<close> holds the bytes of the active
  block that have been written since the block became active; what lies behind them in
  the C buffer is stale.  \<open>lz4Stream\<close> is the streaming compression context.
\<close>

record SaveArchive =
  stream :: bytes
  buffer :: bytes
  offset :: nat
  first_block :: bool
  lz4Stream :: "bytes list"

definition SaveArchive_initBlock :: "env \<Rightarrow> bytes \<Rightarrow> error + SaveArchive" where
  "SaveArchive_initBlock e file =
     (if \<not> malloc_ok e (BLOCK_BYTES * 2) \<or>
         \<not> malloc_ok e (LZ4_COMPRESSBOUND e BLOCK_BYTES + 8)
      then Inl AllocCompressionBuffer
      else Inr \<lparr>stream = file, buffer = [], offset = 0, first_block = True,
                lz4Stream = []\<rparr>)"

definition flushBlock :: "env \<Rightarrow> SaveArchive \<Rightarrow> error + SaveArchive" where
  "flushBlock e s =
     (if first_block s then
        if length (buffer s) < 72 then Inl UninitialisedHeader
        else if head_compression (buffer s) \<noteq> 0 then Inl AssertCompression
        else if offset s < headSz then Inl SizeUnderflow
        else
          let buf1 = set_compression (buffer s) 1;
              src = take (offset s - headSz) (drop headSz buf1);
              c = LZ4_compress_HC_continue e (lz4Stream s) src (LZ4_COMPRESSBOUND e BLOCK_BYTES)
          in if length c \<le> 0 then Inl CompressingFirstBlock
             else
               let buf2 = set_first_block_size buf1 (length c);
                   compressed_buffer = take headSz buf2 @ c
               in Inr (s\<lparr>stream := stream s @ compressed_buffer, buffer := [],
                         offset := 0, first_block := False,
                         lz4Stream := lz4Stream s @ [src]\<rparr>)
      else
        let src = take (offset s) (buffer s);
            c = LZ4_compress_HC_continue e (lz4Stream s) src (LZ4_COMPRESSBOUND e BLOCK_BYTES)
        in if length c \<le> 0 then Inl Compressing
           else Inr (s\<lparr>stream := stream s @ le_bytes 8 (length c) @ c, buffer := [],
                       offset := 0, lz4Stream := lz4Stream s @ [src]\<rparr>))"

definition SaveArchive_endBlock :: "SaveArchive \<Rightarrow> SaveArchive" where
  "SaveArchive_endBlock s = s\<lparr>buffer := [], stream := stream s @ le_bytes 8 0\<rparr>"

text \<open>The destructor: flush what is left, then write the zero length.\<close>

definition SaveArchive_close :: "env \<Rightarrow> SaveArchive \<Rightarrow> error + SaveArchive" where
  "SaveArchive_close e s =
     (case flushBlock e s of Inl err \<Rightarrow> Inl err | Inr s1 \<Rightarrow> Inr (SaveArchive_endBlock s1))"

text \<open>\<^verbatim>\<open>save(const T &val)\<close>: \<open>val\<close> is the object representation, \<open>sizeof(val)\<close> its length.\<close>

definition save :: "env \<Rightarrow> SaveArchive \<Rightarrow> bytes \<Rightarrow> error + SaveArchive" where
  "save e s val =
     (if \<not> length val < BLOCK_BYTES then Inl AssertSizeof
      else
        case (if offset s + length val > BLOCK_BYTES then flushBlock e s else Inr s) of
          Inl err \<Rightarrow> Inl err
        | Inr s1 \<Rightarrow>
            Inr (s1\<lparr>buffer := memcpy_at (buffer s1) (offset s1) val,
                    offset := offset s1 + length val\<rparr>))"

text \<open>\<^verbatim>\<open>save(T *const &val)\<close>: pointers are not saved.\<close>

definition save_pointer :: "SaveArchive \<Rightarrow> nat \<Rightarrow> SaveArchive" where
  "save_pointer s val = s"

text \<open>
  \<^verbatim>\<open>save_binary(ptr, size)\<close>: the list is the \<open>size\<close> bytes at \<open>ptr\<close>.  The loop writes
  one block per iteration while more than a block is left.
\<close>

function save_binary_chunks :: "env \<Rightarrow> SaveArchive \<Rightarrow> bytes \<Rightarrow> error + SaveArchive \<times> bytes" where
  "save_binary_chunks e s src =
     (if length src > BLOCK_BYTES then
        case flushBlock e s of
          Inl err \<Rightarrow> Inl err
        | Inr s1 \<Rightarrow>
            save_binary_chunks e
              (s1\<lparr>buffer := memcpy_at (buffer s1) 0 (take BLOCK_BYTES src),
                  offset := offset s1 + BLOCK_BYTES\<rparr>)
              (drop BLOCK_BYTES src)
      else Inr (s, src))"
  by pat_completeness auto
termination
  by (relation "measure (\<lambda>(e, s, src). length src)") (auto simp: BLOCK_BYTES_def)

declare save_binary_chunks.simps [simp del]

definition save_binary :: "env \<Rightarrow> SaveArchive \<Rightarrow> bytes \<Rightarrow> error + SaveArchive" where
  "save_binary e s src =
     (case save_binary_chunks e s src of
        Inl err \<Rightarrow> Inl err
      | Inr (s1, rest) \<Rightarrow>
          (case (if offset s1 + length rest > BLOCK_BYTES then flushBlock e s1 else Inr s1) of
             Inl err \<Rightarrow> Inl err
           | Inr s2 \<Rightarrow>
               Inr (s2\<lparr>buffer := memcpy_at (buffer s2) (offset s2) rest,
                       offset := offset s2 + length rest\<rparr>)))"

section \<open>LoadArchive\<close>

text \<open>
  A \<^verbatim>\<open>FILE *\<close> opened for reading: the file's bytes and the position.  \<^verbatim>\<open>fread(p, n, 1, f)\<close>
  returns 1 only when \<open>n\<close> is positive and \<open>n\<close> bytes are left; every other outcome is
  \<open>None\<close>.
\<close>

record FILE =
  data :: bytes
  pos :: nat

definition ftell :: "FILE \<Rightarrow> nat" where
  "ftell f = pos f"

definition fseek_set :: "FILE \<Rightarrow> nat \<Rightarrow> FILE" where
  "fseek_set f p = f\<lparr>pos := p\<rparr>"

definition fread :: "FILE \<Rightarrow> nat \<Rightarrow> (bytes \<times> FILE) option" where
  "fread f n =
     (if n = 0 \<or> length (data f) < pos f + n then None
      else Some (take n (drop (pos f) (data f)), f\<lparr>pos := pos f + n\<rparr>))"

text \<open>
  \<open>in_buffer\<close> holds the valid bytes of the active block (\<^verbatim>\<open>buffer_\<close>), \<open>ptr\<close> is the
  read cursor as an offset into it (\<^verbatim>\<open>ptr_ - buffer_\<close>), \<open>buffer_blocks\<close> tells whether
  the double buffer is allocated (the pointer is not \<^verbatim>\<open>NULL\<close>), and \<open>lz4StreamDecode\<close> is
  the streaming decompression context.
\<close>

record LoadArchive =
  in_stream :: FILE
  in_buffer :: bytes
  ptr :: nat
  block_sz :: nat
  buffer_blocks :: bool
  lz4StreamDecode :: "bytes list"

text \<open>
  \<^verbatim>\<open>loadBlock(buffer_ + k, compSz, stream)\<close>: \<open>pre\<close> is the \<open>k\<close> bytes of the active block in
  front of the destination.  Reading into the staging buffer of an archive that has
  none (the legacy path) is the result \<open>NullBuffer\<close>.
\<close>

definition loadBlock :: "env \<Rightarrow> LoadArchive \<Rightarrow> bytes \<Rightarrow> nat \<Rightarrow> error + LoadArchive" where
  "loadBlock e r pre compSz =
     (if compSz \<ge> LZ4_COMPRESSBOUND e BLOCK_BYTES then Inl BlockSizeTooLarge
      else if \<not> buffer_blocks r then Inl NullBuffer
      else
        case fread (in_stream r) compSz of
          None \<Rightarrow> Inl ReadBlock
        | Some (compressed_buffer, f) \<Rightarrow>
            (case LZ4_decompress_safe_continue e (lz4StreamDecode r) compressed_buffer
                    BLOCK_BYTES of
               None \<Rightarrow> Inl DecompressBlock
             | Some dec \<Rightarrow>
                 if length dec \<le> 0 then Inl DecompressBlock
                 else Inr (r\<lparr>in_stream := f, in_buffer := pre @ dec,
                             block_sz := length dec,
                             lz4StreamDecode := lz4StreamDecode r @ [dec]\<rparr>)))"

definition c_int :: "nat \<Rightarrow> int" where
  "c_int n = sint (word_of_nat n :: 32 word)"

definition c_size_t :: "int \<Rightarrow> nat" where
  "c_size_t i = nat (i mod 2 ^ 64)"

definition decompressAndLoadV10 :: "env \<Rightarrow> FILE \<Rightarrow> error + LoadArchive" where
  "decompressAndLoadV10 e f =
     (let p = ftell f;
          fileSize = size_t_sub (length (data f)) p;
          f0 = fseek_set f p
      in if \<not> malloc_ok e fileSize then Inl AllocFileBuffer
         else
           case fread f0 fileSize of
             None \<Rightarrow> Inl ReadCompressed
           | Some (compBuffer, f1) \<Rightarrow>
               let compressedSz = size_t_sub fileSize headSz;
                   uncompressedSz = size_t_sub (head_first_block_size compBuffer) headSz
               in if head_compression compBuffer \<noteq> 1 then Inl CompressionNotSupported
                  else if \<not> malloc_ok e ((uncompressedSz + headSz) mod 2 ^ 64)
                  then Inl AllocDecompressionBuffer
                  else
                    let (ret, dec) = LZ4_decompress_safe e (drop headSz compBuffer)
                                       (c_int compressedSz) (c_int uncompressedSz);
                        usedSz = c_size_t ret
                    in if usedSz \<noteq> uncompressedSz then Inl UnexpectedDecompressionSize
                       else
                         let target = (compressedSz + headSz + p) mod 2 ^ 64;
                             f2 = (if target \<noteq> fileSize then fseek_set f1 target else f1)
                         in Inr \<lparr>in_stream = f2,
                                  in_buffer = take headSz compBuffer @ dec,
                                  ptr = 0,
                                  block_sz = (uncompressedSz + headSz) mod 2 ^ 64,
                                  buffer_blocks = False,
                                  lz4StreamDecode = []\<rparr>)"

text \<open>The test of \<^verbatim>\<open>initBlock\<close> for the old format: the characters \<^verbatim>\<open>'1'\<close> and \<^verbatim>\<open>'0'\<close>.\<close>

definition is_v10 :: "bytes \<Rightarrow> bool" where
  "is_v10 head = (head ! 13 = 49 \<and> head ! 15 = 48)"

definition LoadArchive_initBlock :: "env \<Rightarrow> FILE \<Rightarrow> error + LoadArchive" where
  "LoadArchive_initBlock e f =
     (let p = ftell f in
      if \<not> malloc_ok e headSz then Inl AllocHeaderBuffer
      else
        case fread f headSz of
          None \<Rightarrow> Inl ReadHeader
        | Some (head, f1) \<Rightarrow>
            if is_v10 head then decompressAndLoadV10 e (fseek_set f1 p)
            else if \<not> malloc_ok e (BLOCK_BYTES * 2) \<or>
                    \<not> malloc_ok e (LZ4_COMPRESSBOUND e BLOCK_BYTES)
            then Inl AllocCompressionBuffer
            else
              (case loadBlock e
                      \<lparr>in_stream = f1, in_buffer = head, ptr = 0, block_sz = 0,
                       buffer_blocks = True, lz4StreamDecode = []\<rparr>
                      head (head_first_block_size head) of
                 Inl err \<Rightarrow> Inl err
               | Inr r \<Rightarrow> Inr (r\<lparr>block_sz := block_sz r + headSz, ptr := 0\<rparr>)))"

definition preparePtr :: "env \<Rightarrow> LoadArchive \<Rightarrow> nat \<Rightarrow> error + LoadArchive" where
  "preparePtr e r n =
     (if ptr r + n \<le> block_sz r then Inr r
      else
        case fread (in_stream r) 8 of
          None \<Rightarrow> Inl PastEndOfFile
        | Some (prefix, f) \<Rightarrow>
            let cmpSz = le_nat prefix in
            if cmpSz \<le> 0 then Inl PastEndOfFile
            else
              (case loadBlock e (r\<lparr>in_stream := f\<rparr>) [] cmpSz of
                 Inl err \<Rightarrow> Inl err
               | Inr r1 \<Rightarrow> Inr (r1\<lparr>ptr := 0\<rparr>)))"

definition LoadArchive_endBlock :: "LoadArchive \<Rightarrow> error + LoadArchive" where
  "LoadArchive_endBlock r =
     (if buffer_blocks r then
        case fread (in_stream r) 8 of
          None \<Rightarrow> Inl ReadEnd
        | Some (zero, f) \<Rightarrow>
            if le_nat zero \<noteq> 0 then Inl LastBlockNotZero
            else Inr (r\<lparr>in_stream := f, buffer_blocks := False, ptr := 0\<rparr>)
      else Inr (r\<lparr>ptr := 0\<rparr>))"

text \<open>\<^verbatim>\<open>load(T &val)\<close> for a value of \<open>n\<close> bytes: the bytes copied into \<open>val\<close>.\<close>

definition load :: "env \<Rightarrow> LoadArchive \<Rightarrow> nat \<Rightarrow> error + bytes \<times> LoadArchive" where
  "load e r n =
     (case preparePtr e r n of
        Inl err \<Rightarrow> Inl err
      | Inr r1 \<Rightarrow> Inr (take n (drop (ptr r1) (in_buffer r1)), r1\<lparr>ptr := ptr r1 + n\<rparr>))"

text \<open>\<^verbatim>\<open>load(T *&val)\<close>: pointers are not loaded; \<open>val\<close> keeps its value.\<close>

definition load_pointer :: "LoadArchive \<Rightarrow> nat \<Rightarrow> nat \<times> LoadArchive" where
  "load_pointer r val = (val, r)"

function load_binary_chunks ::
  "env \<Rightarrow> LoadArchive \<Rightarrow> nat \<Rightarrow> bytes \<Rightarrow> error + LoadArchive \<times> nat \<times> bytes" where
  "load_binary_chunks e r n dst =
     (if n > BLOCK_BYTES then
        case preparePtr e r BLOCK_BYTES of
          Inl err \<Rightarrow> Inl err
        | Inr r1 \<Rightarrow>
            load_binary_chunks e (r1\<lparr>ptr := ptr r1 + BLOCK_BYTES\<rparr>) (n - BLOCK_BYTES)
              (dst @ take BLOCK_BYTES (drop (ptr r1) (in_buffer r1)))
      else Inr (r, n, dst))"
  by pat_completeness auto
termination
  by (relation "measure (\<lambda>(e, r, n, dst). n)") (auto simp: BLOCK_BYTES_def)

declare load_binary_chunks.simps [simp del]

definition load_binary :: "env \<Rightarrow> LoadArchive \<Rightarrow> nat \<Rightarrow> error + bytes \<times> LoadArchive" where
  "load_binary e r n =
     (case load_binary_chunks e r n [] of
        Inl err \<Rightarrow> Inl err
      | Inr (r1, rest, dst) \<Rightarrow>
          (case preparePtr e r1 rest of
             Inl err \<Rightarrow> Inl err
           | Inr r2 \<Rightarrow>
               Inr (dst @ take rest (drop (ptr r2) (in_buffer r2)),
                    r2\<lparr>ptr := ptr r2 + rest\<rparr>)))"

section \<open>The type dispatch registry\<close>

text \<open>
  A value as the serializers see it.  \<open>Scalar\<close> is a value of one of the types of
  \<^verbatim>\<open>BASIC_TYPE_SERIALIZER\<close> and \<open>Array\<close> a \<^verbatim>\<open>T[N]\<close>, both given by their object
  representation; \<open>Enum\<close> is a value of a type of \<^verbatim>\<open>ENUM_SERIALIZER\<close>, given by its
  integer; \<open>Map\<close> lists the entries of a \<^verbatim>\<open>std::map\<close> in iteration order; \<open>Pointer\<close> is an
  address; \<open>Binary\<close> is the bytes a \<^verbatim>\<open>binary_object\<close> refers to; \<open>Object\<close> is a user
  type whose \<^verbatim>\<open>serialize\<close> visits its fields in order.
\<close>

datatype val =
    Scalar bytes
  | Enum int
  | Vector "val list"
  | Map "(val \<times> val) list"
  | Pointer nat
  | Array bytes
  | Binary bytes
  | Object "val list"

text \<open>
  What an output archive offers to \<^verbatim>\<open>Serializer<T>::save\<close>: \<^verbatim>\<open>save\<close> as overload resolution
  selects it for a non-pointer and for a pointer argument, and \<^verbatim>\<open>save_binary\<close>.
\<close>

record 'a OutputArchive =
  ar_save :: "'a \<Rightarrow> bytes \<Rightarrow> error + 'a"
  ar_save_pointer :: "'a \<Rightarrow> nat \<Rightarrow> error + 'a"
  ar_save_binary :: "'a \<Rightarrow> bytes \<Rightarrow> error + 'a"

function Serializer_save :: "'a OutputArchive \<Rightarrow> 'a \<Rightarrow> val \<Rightarrow> error + 'a"
  and save_elements :: "'a OutputArchive \<Rightarrow> 'a \<Rightarrow> val list \<Rightarrow> error + 'a"
  and save_entries :: "'a OutputArchive \<Rightarrow> 'a \<Rightarrow> (val \<times> val) list \<Rightarrow> error + 'a" where
  "Serializer_save ar a (Scalar v) = ar_save ar a v"
| "Serializer_save ar a (Enum i) = ar_save ar a (le_bytes 4 (nat (i mod 2 ^ 32)))"
| "Serializer_save ar a (Vector xs) =
     (case ar_save ar a (le_bytes 8 (length xs)) of
        Inl err \<Rightarrow> Inl err
      | Inr a1 \<Rightarrow> save_elements ar a1 xs)"
| "Serializer_save ar a (Map m) =
     (case ar_save ar a (le_bytes 8 (length m)) of
        Inl err \<Rightarrow> Inl err
      | Inr a1 \<Rightarrow> save_entries ar a1 m)"
| "Serializer_save ar a (Pointer p) = ar_save_pointer ar a p"
| "Serializer_save ar a (Array v) = ar_save ar a v"
| "Serializer_save ar a (Binary b) = ar_save_binary ar a b"
| "Serializer_save ar a (Object fs) = save_elements ar a fs"
| "save_elements ar a [] = Inr a"
| "save_elements ar a (x # xs) =
     (case Serializer_save ar a x of
        Inl err \<Rightarrow> Inl err
      | Inr a1 \<Rightarrow> save_elements ar a1 xs)"
| "save_entries ar a [] = Inr a"
| "save_entries ar a ((k, v) # m) =
     (case Serializer_save ar a k of
        Inl err \<Rightarrow> Inl err
      | Inr a1 \<Rightarrow>
          (case Serializer_save ar a1 v of
             Inl err \<Rightarrow> Inl err
           | Inr a2 \<Rightarrow> save_entries ar a2 m))"
  by pat_completeness auto
termination
  by (relation "measure (\<lambda>x. case x of
        Inl (ar, a, v) \<Rightarrow> size v
      | Inr (Inl (ar, a, xs)) \<Rightarrow> size_list size xs
      | Inr (Inr (ar, a, m)) \<Rightarrow> size_list (size_prod size size) m)") auto

text \<open>
  \<^verbatim>\<open>SizeArchive\<close> has one \<^verbatim>\<open>save\<close>, a template over every type; for a pointer argument it
  is instantiated at the pointer type and adds the size of a pointer.
\<close>

record SizeArchive =
  size_acc :: nat

definition SizeArchive_save :: "SizeArchive \<Rightarrow> bytes \<Rightarrow> SizeArchive" where
  "SizeArchive_save z val = z\<lparr>size_acc := size_acc z + length val\<rparr>"

definition SizeArchive_save_binary :: "SizeArchive \<Rightarrow> bytes \<Rightarrow> SizeArchive" where
  "SizeArchive_save_binary z b = z\<lparr>size_acc := size_acc z + length b\<rparr>"

definition as_SizeArchive :: "SizeArchive OutputArchive" where
  "as_SizeArchive =
     \<lparr>ar_save = (\<lambda>z v. Inr (SizeArchive_save z v)),
      ar_save_pointer = (\<lambda>z p. Inr (SizeArchive_save z (le_bytes 8 p))),
      ar_save_binary = (\<lambda>z b. Inr (SizeArchive_save_binary z b))\<rparr>"

definition as_SaveArchive :: "env \<Rightarrow> SaveArchive OutputArchive" where
  "as_SaveArchive e =
     \<lparr>ar_save = save e,
      ar_save_pointer = (\<lambda>s p. Inr (save_pointer s p)),
      ar_save_binary = save_binary e\<rparr>"

text \<open>
  The number of bytes \<^verbatim>\<open>SaveArchive\<close> has copied into its blocks: the blocks handed to
  the compressor, the header in front of the first of them, and the bytes of the
  active block.
\<close>

definition copied :: "SaveArchive \<Rightarrow> nat" where
  "copied s =
     (\<Sum>b \<leftarrow> lz4Stream s. length b) + (if first_block s then 0 else headSz) + offset s"

text \<open>
  Loading is directed by the static type of the target.  \<open>TBinary n\<close> is a
  \<^verbatim>\<open>binary_object\<close> of \<open>n\<close> bytes, and \<open>TMap lt k v\<close> is a \<^verbatim>\<open>std::map<K, V>\<close> with the
  comparison \<open>lt\<close> of its keys (\<^verbatim>\<open>std::less<K>\<close>).  The target object is passed along: a
  pointer keeps the value it has, a vector keeps the elements \<^verbatim>\<open>resize\<close> leaves in place,
  and a map keeps its entries.  A freshly constructed target is \<open>default_val\<close>.
\<close>

datatype ty =
    TScalar nat
  | TEnum
  | TVector ty
  | TMap "val \<Rightarrow> val \<Rightarrow> bool" ty ty
  | TPointer
  | TArray nat
  | TBinary nat
  | TObject "ty list"

fun default_val :: "ty \<Rightarrow> val" where
  "default_val (TScalar n) = Scalar (replicate n 0)"
| "default_val TEnum = Enum 0"
| "default_val (TVector t) = Vector []"
| "default_val (TMap lt k v) = Map []"
| "default_val TPointer = Pointer 0"
| "default_val (TArray n) = Array (replicate n 0)"
| "default_val (TBinary n) = Binary (replicate n 0)"
| "default_val (TObject ts) = Object (map default_val ts)"

definition resize :: "nat \<Rightarrow> 'a list \<Rightarrow> 'a \<Rightarrow> 'a list" where
  "resize n xs d = take n xs @ replicate (n - length xs) d"

text \<open>
  \<^verbatim>\<open>map_val[key] = value\<close> on the entries in key order: the entry whose key is equivalent
  to \<open>key\<close> (neither is less than the other) gets the value, and without such an entry
  a new one is inserted in front of the first greater key.
\<close>

fun map_assign ::
  "('k \<Rightarrow> 'k \<Rightarrow> bool) \<Rightarrow> 'k \<Rightarrow> 'v \<Rightarrow> ('k \<times> 'v) list \<Rightarrow> ('k \<times> 'v) list" where
  "map_assign lt k v [] = [(k, v)]"
| "map_assign lt k v (kv # m) =
     (if lt k (fst kv) then (k, v) # kv # m
      else if lt (fst kv) k then kv # map_assign lt k v m
      else (fst kv, v) # m)"

fun elements_of :: "val \<Rightarrow> val list" where
  "elements_of (Vector xs) = xs"
| "elements_of (Object fs) = fs"
| "elements_of v = []"

fun entries_of :: "val \<Rightarrow> (val \<times> val) list" where
  "entries_of (Map m) = m"
| "entries_of v = []"

fun pointer_of :: "val \<Rightarrow> nat" where
  "pointer_of (Pointer p) = p"
| "pointer_of v = 0"

function Serializer_load :: "env \<Rightarrow> ty \<Rightarrow> val \<Rightarrow> LoadArchive \<Rightarrow> error + val \<times> LoadArchive"
  and load_elements ::
    "env \<Rightarrow> ty \<Rightarrow> val list \<Rightarrow> LoadArchive \<Rightarrow> error + val list \<times> LoadArchive"
  and load_entries ::
    "env \<Rightarrow> (val \<Rightarrow> val \<Rightarrow> bool) \<Rightarrow> ty \<Rightarrow> ty \<Rightarrow> nat \<Rightarrow> (val \<times> val) list \<Rightarrow> LoadArchive \<Rightarrow>
     error + (val \<times> val) list \<times> LoadArchive"
  and load_fields ::
    "env \<Rightarrow> ty list \<Rightarrow> val list \<Rightarrow> LoadArchive \<Rightarrow> error + val list \<times> LoadArchive" where
  "Serializer_load e (TScalar n) old r =
     (case load e r n of Inl err \<Rightarrow> Inl err | Inr (v, r1) \<Rightarrow> Inr (Scalar v, r1))"
| "Serializer_load e TEnum old r =
     (case load e r 4 of
        Inl err \<Rightarrow> Inl err
      | Inr (v, r1) \<Rightarrow> Inr (Enum (c_int (le_nat v)), r1))"
| "Serializer_load e (TVector t) old r =
     (case load e r 8 of
        Inl err \<Rightarrow> Inl err
      | Inr (v, r1) \<Rightarrow>
          (case load_elements e t (resize (le_nat v) (elements_of old) (default_val t)) r1 of
             Inl err \<Rightarrow> Inl err
           | Inr (xs, r2) \<Rightarrow> Inr (Vector xs, r2)))"
| "Serializer_load e (TMap lt k v) old r =
     (case load e r 8 of
        Inl err \<Rightarrow> Inl err
      | Inr (n, r1) \<Rightarrow>
          (case load_entries e lt k v (le_nat n) (entries_of old) r1 of
             Inl err \<Rightarrow> Inl err
           | Inr (m, r2) \<Rightarrow> Inr (Map m, r2)))"
| "Serializer_load e TPointer old r =
     (case load_pointer r (pointer_of old) of (p, r1) \<Rightarrow> Inr (Pointer p, r1))"
| "Serializer_load e (TArray n) old r =
     (case load e r n of Inl err \<Rightarrow> Inl err | Inr (v, r1) \<Rightarrow> Inr (Array v, r1))"
| "Serializer_load e (TBinary n) old r =
     (case load_binary e r n of Inl err \<Rightarrow> Inl err | Inr (b, r1) \<Rightarrow> Inr (Binary b, r1))"
| "Serializer_load e (TObject ts) old r =
     (case load_fields e ts (elements_of old) r of
        Inl err \<Rightarrow> Inl err
      | Inr (fs, r1) \<Rightarrow> Inr (Object fs, r1))"
| "load_elements e t [] r = Inr ([], r)"
| "load_elements e t (x # xs) r =
     (case Serializer_load e t x r of
        Inl err \<Rightarrow> Inl err
      | Inr (y, r1) \<Rightarrow>
          (case load_elements e t xs r1 of
             Inl err \<Rightarrow> Inl err
           | Inr (ys, r2) \<Rightarrow> Inr (y # ys, r2)))"
| "load_entries e lt k v 0 m r = Inr (m, r)"
| "load_entries e lt k v (Suc n) m r =
     (case Serializer_load e k (default_val k) r of
        Inl err \<Rightarrow> Inl err
      | Inr (key, r1) \<Rightarrow>
          (case Serializer_load e v (default_val v) r1 of
             Inl err \<Rightarrow> Inl err
           | Inr (value, r2) \<Rightarrow>
               load_entries e lt k v n (map_assign lt key value m) r2))"
| "load_fields e [] olds r = Inr ([], r)"
| "load_fields e (t # ts) olds r =
     (case Serializer_load e t (case olds of [] \<Rightarrow> default_val t | x # xs \<Rightarrow> x) r of
        Inl err \<Rightarrow> Inl err
      | Inr (y, r1) \<Rightarrow>
          (case load_fields e ts (tl olds) r1 of
             Inl err \<Rightarrow> Inl err
           | Inr (ys, r2) \<Rightarrow> Inr (y # ys, r2)))"
  by pat_completeness auto
termination
  by (relation "inv_image (less_than <*lex*> less_than) (\<lambda>x. case x of
        Inl (Inl (e, t, old, r)) \<Rightarrow> (size t, 0)
      | Inl (Inr (e, t, olds, r)) \<Rightarrow> (size t, Suc (length olds))
      | Inr (Inl (e, lt, k, v, n, m, r)) \<Rightarrow> (size k + size v, Suc n)
      | Inr (Inr (e, ts, olds, r)) \<Rightarrow> (size_list size ts, 1))") auto

section \<open>Whole files\<close>

text \<open>
  Modelled from the spec: the callers of the archives are not in the sources.  The
  spec has the FormatHeader written as the first bytes of every file and read once at
  the start of every load.  \<open>save_file\<close> constructs a \<^verbatim>\<open>SaveArchive\<close> on an empty file, saves
  the header as the first value, saves the values and destroys the archive;
  \<open>load_file\<close> constructs a \<^verbatim>\<open>LoadArchive\<close>, loads the header, loads the values into fresh
  targets of the given types and destroys the archive.
\<close>

definition save_file :: "env \<Rightarrow> IndexHeaderStruct \<Rightarrow> val list \<Rightarrow> error + bytes" where
  "save_file e h vs =
     (case SaveArchive_initBlock e [] of
        Inl err \<Rightarrow> Inl err
      | Inr s0 \<Rightarrow>
          (case Serializer_save (as_SaveArchive e) s0 (Array (header_bytes h)) of
             Inl err \<Rightarrow> Inl err
           | Inr s1 \<Rightarrow>
               (case save_elements (as_SaveArchive e) s1 vs of
                  Inl err \<Rightarrow> Inl err
                | Inr s2 \<Rightarrow>
                    (case SaveArchive_close e s2 of
                       Inl err \<Rightarrow> Inl err
                     | Inr s3 \<Rightarrow> Inr (stream s3)))))"

definition load_file :: "env \<Rightarrow> bytes \<Rightarrow> ty list \<Rightarrow> error + bytes \<times> val list" where
  "load_file e bs ts =
     (case LoadArchive_initBlock e \<lparr>data = bs, pos = 0\<rparr> of
        Inl err \<Rightarrow> Inl err
      | Inr r0 \<Rightarrow>
          (case load e r0 headSz of
             Inl err \<Rightarrow> Inl err
           | Inr (head, r1) \<Rightarrow>
               (case load_fields e ts [] r1 of
                  Inl err \<Rightarrow> Inl err
                | Inr (vs, r2) \<Rightarrow>
                    (case LoadArchive_endBlock r2 of
                       Inl err \<Rightarrow> Inl err
                     | Inr r3 \<Rightarrow> Inr (head, vs)))))"

text \<open>Headers and files used to run the model.\<close>

definition ascii :: "string \<Rightarrow> bytes" where
  "ascii s = map (\<lambda>c. of_nat (of_char c)) s"

definition header_v11 :: IndexHeaderStruct where
  "header_v11 =
     \<lparr>signature = ascii ''FLANN_INDEX_v1.1'', version = ascii ''1.8.4'',
      data_type = 8, index_type = 1, rows = 2, cols = 3,
      compression = 0, first_block_size = 0\<rparr>"

definition header_v10 :: IndexHeaderStruct where
  "header_v10 = header_v11\<lparr>signature := ascii ''FLANN_INDEX_v1.0''\<rparr>"

section \<open>Invariants of the save path\<close>

text \<open>
  What the first flush relies on: while the first block is pending, at least a
  header's worth of bytes has been saved and the bytes it reads as the compression
  field are zero.  \<open>header_failures\<close> are the results of a first flush without that.
\<close>

definition header_in_place :: "SaveArchive \<Rightarrow> bool" where
  "header_in_place s \<longleftrightarrow>
     (first_block s \<longrightarrow>
        headSz \<le> offset s \<and> 72 \<le> length (buffer s) \<and> head_compression (buffer s) = 0)"

definition header_failures :: "error set" where
  "header_failures = {AssertCompression, SizeUnderflow, UninitialisedHeader}"

definition keeps_header :: "error + SaveArchive \<Rightarrow> bool" where
  "keeps_header res =
     (case res of Inl err \<Rightarrow> err \<notin> header_failures | Inr s' \<Rightarrow> header_in_place s')"

section \<open>A stand-in for LZ4 to run the model\<close>

text \<open>
  To evaluate the archives on concrete inputs the environment is instantiated with a
  codec that stores a block as one token byte followed by the block's bytes, the
  bound of \<^verbatim>\<open>lz4.h\<close> (\<open>n + n / 255 + 16\<close>) and an allocator that never fails.
\<close>

definition store_env :: env where
  "store_env =
     \<lparr>LZ4_compress_HC_continue = (\<lambda>ctx src cap. 0 # src),
      LZ4_decompress_safe_continue =
        (\<lambda>ctx src cap. case src of [] \<Rightarrow> None | t # lits \<Rightarrow> Some lits),
      LZ4_decompress_safe =
        (\<lambda>src n cap. case src of [] \<Rightarrow> (- 1, []) | t # lits \<Rightarrow> (int (length lits), lits)),
      LZ4_COMPRESSBOUND = (\<lambda>n. n + n div 255 + 16),
      malloc_ok = (\<lambda>n. True)\<rparr>"

definition demo_first :: SaveArchive where
  "demo_first =
     \<lparr>stream = [], buffer = header_bytes header_v11 @ [1, 2, 3], offset = 83,
      first_block = True, lz4Stream = []\<rparr>"

definition demo_later :: SaveArchive where
  "demo_later =
     \<lparr>stream = [9], buffer = [4, 5], offset = 2, first_block = False,
      lz4Stream = [[1, 2, 3]]\<rparr>"

definition demo_reader :: "bytes \<Rightarrow> LoadArchive" where
  "demo_reader bs =
     \<lparr>in_stream = \<lparr>data = bs, pos = 0\<rparr>, in_buffer = [], ptr = 0, block_sz = 0,
      buffer_blocks = True, lz4StreamDecode = []\<rparr>"

definition demo_current_file :: "nat \<Rightarrow> bytes" where
  "demo_current_file c =
     header_bytes (header_v11\<lparr>compression := c, first_block_size := 4\<rparr>) @
     [0, 1, 2, 3] @ le_bytes 8 0"

definition demo_legacy_file :: "nat \<Rightarrow> bytes" where
  "demo_legacy_file c =
     header_bytes (header_v10\<lparr>compression := c, first_block_size := 83\<rparr>) @ [0, 1, 2, 3]"

section \<open>Writer and reader in step\<close>

text \<open>
  One write into the active block, as \<open>save\<close> and both parts of \<open>save_binary\<close> perform
  it: flush first when the bytes do not fit (or always, in the loop of \<open>save_binary\<close>),
  then copy the bytes behind the write offset.
\<close>

definition put :: "env \<Rightarrow> bool \<Rightarrow> SaveArchive \<Rightarrow> bytes \<Rightarrow> error + SaveArchive" where
  "put e force s v =
     (case (if force \<or> offset s + length v > BLOCK_BYTES then flushBlock e s else Inr s) of
        Inl err \<Rightarrow> Inl err
      | Inr s1 \<Rightarrow>
          Inr (s1\<lparr>buffer := memcpy_at (buffer s1) (offset s1) v,
                  offset := offset s1 + length v\<rparr>))"

fun puts :: "env \<Rightarrow> SaveArchive \<Rightarrow> (bool \<times> bytes) list \<Rightarrow> error + SaveArchive" where
  "puts e s [] = Inr s"
| "puts e s (x # xs) =
     (case put e (fst x) s (snd x) of Inl err \<Rightarrow> Inl err | Inr s1 \<Rightarrow> puts e s1 xs)"

definition valid_step :: "bool \<times> bytes \<Rightarrow> bool" where
  "valid_step x \<longleftrightarrow> length (snd x) \<le> BLOCK_BYTES \<and> (if fst x then snd x \<noteq> [] else True)"

text \<open>The pieces \<open>save_binary\<close> cuts a byte range into, with the flush forced or not.\<close>

function binary_steps :: "bytes \<Rightarrow> (bool \<times> bytes) list" where
  "binary_steps src =
     (if length src > BLOCK_BYTES
      then (True, take BLOCK_BYTES src) # binary_steps (drop BLOCK_BYTES src)
      else [(False, src)])"
  by pat_completeness auto
termination
  by (relation "measure length") (auto simp: BLOCK_BYTES_def)

declare binary_steps.simps [simp del]

definition hdr_len :: "SaveArchive \<Rightarrow> nat" where
  "hdr_len s = (if first_block s then headSz else 0)"

definition payload :: "SaveArchive \<Rightarrow> bytes" where
  "payload s = drop (hdr_len s) (buffer s)"

definition winv :: "SaveArchive \<Rightarrow> bool" where
  "winv s \<longleftrightarrow>
     offset s = length (buffer s) \<and> offset s \<le> BLOCK_BYTES \<and> hdr_len s \<le> offset s"

text \<open>The bytes the later flushes write for the blocks \<open>bs\<close>, from the context \<open>ctx\<close> on.\<close>

fun frames :: "env \<Rightarrow> bytes list \<Rightarrow> bytes list \<Rightarrow> bytes" where
  "frames e ctx [] = []"
| "frames e ctx (b # bs) =
     (let c = LZ4_compress_HC_continue e ctx b (LZ4_COMPRESSBOUND e BLOCK_BYTES)
      in le_bytes 8 (length c) @ c) @ frames e (ctx @ [b]) bs"

text \<open>The bytes the flush of the active block writes once its payload is \<open>cur\<close>.\<close>

definition chunk_of :: "env \<Rightarrow> SaveArchive \<Rightarrow> bytes \<Rightarrow> bytes" where
  "chunk_of e s cur =
     (let c = LZ4_compress_HC_continue e (lz4Stream s) cur (LZ4_COMPRESSBOUND e BLOCK_BYTES)
      in (if first_block s then take 64 (buffer s) @ le_bytes 8 1 @ le_bytes 8 (length c)
          else le_bytes 8 (length c)) @ c)"

text \<open>
  \<open>wfut e s sz cur rest\<close>: \<open>sz\<close> is a later state of the archive \<open>s\<close>, reached right after a
  flush, in which the active block of \<open>s\<close> was flushed with payload \<open>cur\<close>, followed by
  the blocks \<open>rest\<close>.
\<close>

definition wfut :: "env \<Rightarrow> SaveArchive \<Rightarrow> SaveArchive \<Rightarrow> bytes \<Rightarrow> bytes list \<Rightarrow> bool" where
  "wfut e s sz cur rest \<longleftrightarrow>
     lz4Stream sz = lz4Stream s @ cur # rest \<and>
     (\<exists>suf. cur = payload s @ suf) \<and>
     hdr_len s + length cur \<le> BLOCK_BYTES \<and>
     list_all (\<lambda>b. b \<noteq> [] \<and> length b \<le> BLOCK_BYTES) rest \<and>
     stream sz = stream s @ chunk_of e s cur @ frames e (lz4Stream s @ [cur]) rest"

definition will_close :: "env \<Rightarrow> SaveArchive \<Rightarrow> SaveArchive \<Rightarrow> bool" where
  "will_close e s sz \<longleftrightarrow>
     (\<exists>steps sf. list_all valid_step steps \<and> puts e s steps = Inr sf \<and>
                 flushBlock e sf = Inr sz)"

text \<open>
  \<open>rsync e s r cur rest tail\<close>: the reader \<open>r\<close> stands where the writer \<open>s\<close> stood.  Its
  active block is the writer's active block as flushed later (behind the header, in
  the first block), its cursor is the writer's offset, its context is the writer's,
  and the unread part of its stream is the frames of the blocks \<open>rest\<close> and then \<open>tail\<close>.
\<close>

definition rsync ::
  "env \<Rightarrow> SaveArchive \<Rightarrow> LoadArchive \<Rightarrow> bytes \<Rightarrow> bytes list \<Rightarrow> bytes \<Rightarrow> bool" where
  "rsync e s r cur rest tail \<longleftrightarrow>
     buffer_blocks r \<and>
     (\<exists>hp. length hp = hdr_len s \<and> in_buffer r = hp @ cur) \<and>
     block_sz r = hdr_len s + length cur \<and>
     ptr r = offset s \<and>
     lz4StreamDecode r = lz4Stream s @ [cur] \<and>
     drop (pos (in_stream r)) (data (in_stream r)) =
       frames e (lz4Stream s @ [cur]) rest @ tail"

definition in_step :: "env \<Rightarrow> SaveArchive \<Rightarrow> LoadArchive \<Rightarrow> SaveArchive \<Rightarrow> bytes \<Rightarrow> bool" where
  "in_step e s r sz tail \<longleftrightarrow> (\<exists>cur rest. wfut e s sz cur rest \<and> rsync e s r cur rest tail)"

text \<open>
  What is assumed of LZ4: a non-empty block of at most \<open>BLOCK_BYTES\<close> bytes compresses
  to a non-empty output shorter than the bound, and decompressing that output in the
  same context gives the block back.
\<close>

definition codec_ok :: "env \<Rightarrow> bool" where
  "codec_ok e \<longleftrightarrow>
     (\<forall>ctx src. src \<noteq> [] \<and> length src \<le> BLOCK_BYTES \<longrightarrow>
        (let c = LZ4_compress_HC_continue e ctx src (LZ4_COMPRESSBOUND e BLOCK_BYTES)
         in c \<noteq> [] \<and> length c < LZ4_COMPRESSBOUND e BLOCK_BYTES \<and> length c < 2 ^ 64 \<and>
            LZ4_decompress_safe_continue e ctx c BLOCK_BYTES = Some src))"

text \<open>The pieces alone.\<close>

definition pieces :: "bytes \<Rightarrow> bytes list" where
  "pieces src = map snd (binary_steps src)"

definition demo_header_only :: SaveArchive where
  "demo_header_only =
     \<lparr>stream = [], buffer = header_bytes header_v11, offset = headSz, first_block = True,
      lz4Stream = []\<rparr>"

section \<open>Basic facts\<close>

lemma length_le_bytes [simp]: "length (le_bytes n v) = n"
  by (induction n arbitrary: v) auto

lemma le_bytes_numeral [simp]:
  "le_bytes (numeral k) v = of_nat (v mod 256) # le_bytes (pred_numeral k) (v div 256)"
proof -
  have "le_bytes (Suc (pred_numeral k)) v =
        of_nat (v mod 256) # le_bytes (pred_numeral k) (v div 256)"
    by (rule le_bytes.simps)
  then show ?thesis by (simp only: numeral_eq_Suc [of k])
qed

lemma le_nat_le_bytes: "le_nat (le_bytes n v) = v mod 256 ^ n"
proof (induction n arbitrary: v)
  case 0
  then show ?case by simp
next
  case (Suc n)
  have low: "unat (of_nat (v mod 256) :: byte) = v mod 256"
    by (simp add: unat_of_nat)
  have "v mod (256 * 256 ^ n) = 256 * (v div 256 mod 256 ^ n) + v mod 256"
    by (rule mod_mult2_eq)
  then show ?case
    using Suc.IH [of "v div 256"] low by simp
qed

lemma le_nat_replicate_zero [simp]: "le_nat (replicate n 0) = 0"
  by (induction n) auto

lemma le_bytes_zero: "le_bytes n 0 = replicate n 0"
  by (induction n) auto

lemma BLOCK_BYTES_value: "BLOCK_BYTES = 65536"
  by (simp add: BLOCK_BYTES_def)

lemma length_fixed_field [simp]: "length (fixed_field n bs) = n"
  by (simp add: fixed_field_def)

lemma length_header_bytes [simp]: "length (header_bytes h) = 80"
  by (simp add: header_bytes_def del: le_bytes_numeral)

lemma head_compression_header_bytes [simp]:
  "head_compression (header_bytes h) = compression h mod 2 ^ 64"
  by (simp add: head_compression_def header_bytes_def le_nat_le_bytes del: le_bytes_numeral)

lemma head_first_block_size_header_bytes [simp]:
  "head_first_block_size (header_bytes h) = first_block_size h mod 2 ^ 64"
  by (simp add: head_first_block_size_def header_bytes_def le_nat_le_bytes
           del: le_bytes_numeral)

lemma head_signature_header_bytes [simp]:
  "head_signature (header_bytes h) = fixed_field 24 (signature h)"
  by (simp add: head_signature_def header_bytes_def del: le_bytes_numeral)

lemma head_version_header_bytes [simp]:
  "head_version (header_bytes h) = fixed_field 16 (version h)"
  by (simp add: head_version_def header_bytes_def del: le_bytes_numeral)

lemma is_v10_signature:
  "24 \<le> length head \<Longrightarrow>
   is_v10 head \<longleftrightarrow> head_signature head ! 13 = 49 \<and> head_signature head ! 15 = 48"
  by (simp add: is_v10_def head_signature_def)

lemma is_v10_header_bytes:
  "is_v10 (header_bytes h) \<longleftrightarrow>
     fixed_field 24 (signature h) ! 13 = 49 \<and> fixed_field 24 (signature h) ! 15 = 48"
  using is_v10_signature [of "header_bytes h"] by simp

lemma fread_header_bytes:
  "fread \<lparr>data = header_bytes h @ rest, pos = 0\<rparr> headSz =
     Some (header_bytes h, \<lparr>data = header_bytes h @ rest, pos = 80\<rparr>)"
  by (simp add: fread_def headSz_def)

lemma v11_not_v10:
  "signature h = signature header_v11 \<Longrightarrow> \<not> is_v10 (header_bytes h)"
  by (simp add: is_v10_header_bytes header_v11_def fixed_field_def ascii_def)

lemma v10_is_v10:
  "signature h = signature header_v10 \<Longrightarrow> is_v10 (header_bytes h)"
  by (simp add: is_v10_header_bytes header_v10_def header_v11_def fixed_field_def ascii_def)

lemma store_bound: "LZ4_COMPRESSBOUND store_env BLOCK_BYTES = 65809"
  by (simp add: store_env_def BLOCK_BYTES_def)

section \<open>Framing of the flushed blocks\<close>

lemma patched_header:
  assumes "72 \<le> length buf"
  shows "take headSz (set_first_block_size (set_compression buf v) n) =
         take 64 buf @ le_bytes 8 v @ le_bytes 8 n"
  using assms by (simp add: set_first_block_size_def set_compression_def headSz_def)

lemma payload_after_patch:
  assumes "72 \<le> length buf"
  shows "drop headSz (set_compression buf v) = drop headSz buf"
  using assms by (simp add: set_compression_def headSz_def)

lemma flushBlock_first:
  assumes "first_block s" and "flushBlock e s = Inr s'"
  defines "c \<equiv> LZ4_compress_HC_continue e (lz4Stream s)
                 (take (offset s - headSz) (drop headSz (buffer s)))
                 (LZ4_COMPRESSBOUND e BLOCK_BYTES)"
  shows "72 \<le> length (buffer s)" and "head_compression (buffer s) = 0"
    and "headSz \<le> offset s" and "c \<noteq> []"
    and "s' = s\<lparr>stream := stream s @ take 64 (buffer s) @ le_bytes 8 1 @ le_bytes 8 (length c) @ c,
                 buffer := [], offset := 0, first_block := False,
                 lz4Stream := lz4Stream s @ [take (offset s - headSz) (drop headSz (buffer s))]\<rparr>"
proof -
  from assms(1,2) show len: "72 \<le> length (buffer s)"
    by (auto simp: flushBlock_def split: if_splits)
  from assms(1,2) show "head_compression (buffer s) = 0"
    by (auto simp: flushBlock_def split: if_splits)
  from assms(1,2) show "headSz \<le> offset s"
    by (auto simp: flushBlock_def split: if_splits)
  from assms(1,2) len show "c \<noteq> []"
    by (auto simp: flushBlock_def Let_def c_def payload_after_patch split: if_splits)
  from assms(1,2) len show "s' = s\<lparr>stream := stream s @ take 64 (buffer s) @ le_bytes 8 1 @ le_bytes 8 (length c) @ c,
                 buffer := [], offset := 0, first_block := False,
                 lz4Stream := lz4Stream s @ [take (offset s - headSz) (drop headSz (buffer s))]\<rparr>"
    by (auto simp: flushBlock_def Let_def c_def payload_after_patch patched_header
             simp del: le_bytes_numeral split: if_splits)
qed

lemma flushBlock_later:
  assumes "\<not> first_block s" and "flushBlock e s = Inr s'"
  defines "c \<equiv> LZ4_compress_HC_continue e (lz4Stream s) (take (offset s) (buffer s))
                 (LZ4_COMPRESSBOUND e BLOCK_BYTES)"
  shows "c \<noteq> []"
    and "s' = s\<lparr>stream := stream s @ le_bytes 8 (length c) @ c, buffer := [], offset := 0,
                 lz4Stream := lz4Stream s @ [take (offset s) (buffer s)]\<rparr>"
  using assms(1,2)
  by (auto simp: flushBlock_def Let_def c_def simp del: le_bytes_numeral split: if_splits)

text \<open>
  C6.  A successful first flush appends to the file the 80 header bytes of the active
  block, with the compression field patched to 1 and the first-block-size field set to
  the length of the compressed payload, followed by that payload: header size plus
  compressed size bytes in all.  The payload is the compression of the bytes behind
  the header.  Every later flush appends the 8-byte length of the compressed block
  followed by the compressed block.
\<close>

theorem flushBlock_framing:
  assumes "flushBlock e s = Inr s'"
  shows "(first_block s \<longrightarrow>
            (let c = LZ4_compress_HC_continue e (lz4Stream s)
                       (take (offset s - headSz) (drop headSz (buffer s)))
                       (LZ4_COMPRESSBOUND e BLOCK_BYTES);
                 head = take 64 (buffer s) @ le_bytes 8 1 @ le_bytes 8 (length c)
             in stream s' = stream s @ head @ c \<and>
                length head = headSz \<and>
                head_compression head = 1 \<and>
                head_first_block_size head = length c mod 2 ^ 64 \<and>
                length (stream s') = length (stream s) + headSz + length c \<and>
                \<not> first_block s')) \<and>
         (\<not> first_block s \<longrightarrow>
            (let c = LZ4_compress_HC_continue e (lz4Stream s) (take (offset s) (buffer s))
                       (LZ4_COMPRESSBOUND e BLOCK_BYTES)
             in stream s' = stream s @ le_bytes 8 (length c) @ c \<and>
                length (stream s') = length (stream s) + 8 + length c))"
proof (intro conjI impI)
  assume fb: "first_block s"
  define c where "c = LZ4_compress_HC_continue e (lz4Stream s)
                       (take (offset s - headSz) (drop headSz (buffer s)))
                       (LZ4_COMPRESSBOUND e BLOCK_BYTES)"
  define head where "head = take 64 (buffer s) @ le_bytes 8 1 @ le_bytes 8 (length c)"
  have len: "72 \<le> length (buffer s)"
    using flushBlock_first(1) [OF fb assms] .
  have s': "stream s' = stream s @ head @ c" and nf: "\<not> first_block s'"
    using flushBlock_first(5) [OF fb assms] by (simp_all add: c_def head_def)
  have hl: "length head = headSz"
    using len by (simp add: head_def headSz_def)
  have t64: "length (take 64 (buffer s)) = 64"
    using len by simp
  have "drop 64 head = le_bytes 8 1 @ le_bytes 8 (length c)"
    unfolding head_def using t64 by (simp del: le_bytes_numeral)
  then have hc: "head_compression head = 1"
    by (simp add: head_compression_def le_nat_le_bytes del: le_bytes_numeral)
  have "drop 72 head = le_bytes 8 (length c)"
    unfolding head_def using t64 by (simp del: le_bytes_numeral)
  then have hf: "head_first_block_size head = length c mod 2 ^ 64"
    by (simp add: head_first_block_size_def le_nat_le_bytes del: le_bytes_numeral)
  have "length (stream s') = length (stream s) + headSz + length c"
    using s' hl by simp
  with s' hl hc hf nf
  show "let c = LZ4_compress_HC_continue e (lz4Stream s)
                       (take (offset s - headSz) (drop headSz (buffer s)))
                       (LZ4_COMPRESSBOUND e BLOCK_BYTES);
                 head = take 64 (buffer s) @ le_bytes 8 1 @ le_bytes 8 (length c)
             in stream s' = stream s @ head @ c \<and>
                length head = headSz \<and>
                head_compression head = 1 \<and>
                head_first_block_size head = length c mod 2 ^ 64 \<and>
                length (stream s') = length (stream s) + headSz + length c \<and>
                \<not> first_block s'"
    unfolding Let_def c_def [symmetric] head_def [symmetric] by blast
next
  assume nfb: "\<not> first_block s"
  show "let c = LZ4_compress_HC_continue e (lz4Stream s) (take (offset s) (buffer s))
                       (LZ4_COMPRESSBOUND e BLOCK_BYTES)
             in stream s' = stream s @ le_bytes 8 (length c) @ c \<and>
                length (stream s') = length (stream s) + 8 + length c"
    using flushBlock_later(2) [OF nfb assms] by (simp add: Let_def del: le_bytes_numeral)
qed

lemma demo_first_flush: "\<exists>s'. flushBlock store_env demo_first = Inr s'"
  by (simp add: flushBlock_def demo_first_def store_env_def head_compression_def
        header_bytes_def header_v11_def fixed_field_def ascii_def
        headSz_def set_compression_def set_first_block_size_def Let_def)

lemma demo_later_flush: "\<exists>s'. flushBlock store_env demo_later = Inr s'"
  by (simp add: flushBlock_def demo_later_def store_env_def Let_def)

theorem flushBlock_framing_witness:
  "(\<exists>s'. flushBlock store_env demo_first = Inr s' \<and> length (stream s') = 84 \<and>
         \<not> first_block s') \<and>
   (\<exists>s'. flushBlock store_env demo_later = Inr s' \<and>
         stream s' = [9, 3, 0, 0, 0, 0, 0, 0, 0, 0, 4, 5])"
proof
  from demo_first_flush obtain s1 where s1: "flushBlock store_env demo_first = Inr s1" ..
  have fb: "first_block demo_first" by (simp add: demo_first_def)
  from flushBlock_framing [OF s1] fb
  have "length (stream s1) = 84 \<and> \<not> first_block s1"
    by (simp add: Let_def demo_first_def store_env_def headSz_def)
  with s1 show "\<exists>s'. flushBlock store_env demo_first = Inr s' \<and> length (stream s') = 84 \<and>
         \<not> first_block s'"
    by blast
next
  from demo_later_flush obtain s2 where s2: "flushBlock store_env demo_later = Inr s2" ..
  have nfb: "\<not> first_block demo_later" by (simp add: demo_later_def)
  from flushBlock_framing [OF s2] nfb
  have "stream s2 = [9, 3, 0, 0, 0, 0, 0, 0, 0, 0, 4, 5]"
    by (simp add: Let_def demo_later_def store_env_def)
  with s2 show "\<exists>s'. flushBlock store_env demo_later = Inr s' \<and>
         stream s' = [9, 3, 0, 0, 0, 0, 0, 0, 0, 0, 4, 5]"
    by blast
qed

section \<open>The size guard of the block reader\<close>

text \<open>
  C8.  \<open>loadBlock\<close> answers \<open>BlockSizeTooLarge\<close> exactly when the compressed length is at
  least \<open>LZ4_COMPRESSBOUND BLOCK_BYTES\<close>, whatever the archive and its stream hold, so
  nothing is read in that case; a block that is loaded has consumed \<open>compSz\<close> bytes, fewer
  than the bound, which is the size of the staging buffer.  Both callers hand on the
  rejection: \<open>preparePtr\<close> for a length prefix and \<open>LoadArchive_initBlock\<close> for the header's
  first block size.
\<close>

theorem loadBlock_size_guard:
  "(loadBlock e r pre compSz = Inl BlockSizeTooLarge \<longleftrightarrow>
      LZ4_COMPRESSBOUND e BLOCK_BYTES \<le> compSz) \<and>
   (\<forall>r'. loadBlock e r pre compSz = Inr r' \<longrightarrow>
      compSz < LZ4_COMPRESSBOUND e BLOCK_BYTES \<and>
      pos (in_stream r') = pos (in_stream r) + compSz) \<and>
   (\<forall>prefix f. block_sz r < ptr r + n \<and> fread (in_stream r) 8 = Some (prefix, f) \<and>
      0 < le_nat prefix \<and> LZ4_COMPRESSBOUND e BLOCK_BYTES \<le> le_nat prefix \<longrightarrow>
      preparePtr e r n = Inl BlockSizeTooLarge) \<and>
   (\<forall>head f1. malloc_ok e headSz \<and> malloc_ok e (BLOCK_BYTES * 2) \<and>
      malloc_ok e (LZ4_COMPRESSBOUND e BLOCK_BYTES) \<and>
      fread f headSz = Some (head, f1) \<and> \<not> is_v10 head \<and>
      LZ4_COMPRESSBOUND e BLOCK_BYTES \<le> head_first_block_size head \<longrightarrow>
      LoadArchive_initBlock e f = Inl BlockSizeTooLarge)"
proof (intro conjI allI impI)
  show "loadBlock e r pre compSz = Inl BlockSizeTooLarge \<longleftrightarrow>
      LZ4_COMPRESSBOUND e BLOCK_BYTES \<le> compSz"
    by (auto simp: loadBlock_def split: option.splits prod.splits)
next
  fix r' assume "loadBlock e r pre compSz = Inr r'"
  then show "compSz < LZ4_COMPRESSBOUND e BLOCK_BYTES"
    by (auto simp: loadBlock_def split: option.splits prod.splits if_splits)
next
  fix r' assume "loadBlock e r pre compSz = Inr r'"
  then show "pos (in_stream r') = pos (in_stream r) + compSz"
    by (auto simp: loadBlock_def fread_def split: option.splits prod.splits if_splits)
next
  fix prefix f
  assume "block_sz r < ptr r + n \<and> fread (in_stream r) 8 = Some (prefix, f) \<and>
      0 < le_nat prefix \<and> LZ4_COMPRESSBOUND e BLOCK_BYTES \<le> le_nat prefix"
  then show "preparePtr e r n = Inl BlockSizeTooLarge"
    by (simp add: preparePtr_def loadBlock_def)
next
  fix head f1
  assume "malloc_ok e headSz \<and> malloc_ok e (BLOCK_BYTES * 2) \<and>
      malloc_ok e (LZ4_COMPRESSBOUND e BLOCK_BYTES) \<and>
      fread f headSz = Some (head, f1) \<and> \<not> is_v10 head \<and>
      LZ4_COMPRESSBOUND e BLOCK_BYTES \<le> head_first_block_size head"
  then show "LoadArchive_initBlock e f = Inl BlockSizeTooLarge"
    by (simp add: LoadArchive_initBlock_def loadBlock_def)
qed

theorem loadBlock_size_guard_witness:
  "loadBlock store_env (demo_reader [0, 1, 2, 3]) [] 70000 = Inl BlockSizeTooLarge \<and>
   (\<exists>r'. loadBlock store_env (demo_reader [0, 1, 2, 3]) [] 4 = Inr r' \<and>
         pos (in_stream r') = 4) \<and>
   preparePtr store_env (demo_reader (le_bytes 8 70000)) 1 = Inl BlockSizeTooLarge \<and>
   LoadArchive_initBlock store_env
     \<lparr>data = header_bytes (header_v11\<lparr>first_block_size := 70000\<rparr>) @ [], pos = 0\<rparr> =
     Inl BlockSizeTooLarge"
proof -
  let ?r = "demo_reader [0, 1, 2, 3]"
  let ?q = "demo_reader (le_bytes 8 70000)"
  let ?h = "header_bytes (header_v11\<lparr>first_block_size := 70000\<rparr>)"
  let ?f = "\<lparr>data = ?h @ [], pos = 0\<rparr>"
  note bound = store_bound
  have a: "loadBlock store_env ?r [] 70000 = Inl BlockSizeTooLarge"
    using loadBlock_size_guard [of store_env ?r "[]" 70000] bound by simp
  have "\<exists>r'. loadBlock store_env ?r [] 4 = Inr r'"
    by (simp add: loadBlock_def bound fread_def store_env_def demo_reader_def)
  then obtain r' where r': "loadBlock store_env ?r [] 4 = Inr r'" ..
  with loadBlock_size_guard [of store_env ?r "[]" 4] have "pos (in_stream r') = 4"
    by (simp add: demo_reader_def)
  with r' have b: "\<exists>r'. loadBlock store_env ?r [] 4 = Inr r' \<and> pos (in_stream r') = 4"
    by blast
  have c: "preparePtr store_env ?q 1 = Inl BlockSizeTooLarge"
    using loadBlock_size_guard [of store_env ?q "[]" 0 1] bound
    by (simp add: fread_def demo_reader_def)
  have "\<not> is_v10 ?h"
    by (rule v11_not_v10) simp
  then have d: "LoadArchive_initBlock store_env ?f = Inl BlockSizeTooLarge"
    using loadBlock_size_guard [of store_env ?r "[]" 0 1 ?f] bound fread_header_bytes [of _ "[]"]
    by (simp add: store_env_def)
  from a b c d show ?thesis by blast
qed

section \<open>Detection of the old format\<close>

lemma head_compression_append [simp]:
  "72 \<le> length a \<Longrightarrow> head_compression (a @ b) = head_compression a"
  by (simp add: head_compression_def)

lemma head_first_block_size_append [simp]:
  "80 \<le> length a \<Longrightarrow> head_first_block_size (a @ b) = head_first_block_size a"
  by (simp add: head_first_block_size_def)

lemma size_t_sub_small:
  assumes "b \<le> a" and "a < 2 ^ 64"
  shows "size_t_sub a b = a - b"
proof -
  have 1: "b mod 2 ^ 64 = b"
    using assms by simp
  have 2: "a + 2 ^ 64 - b = (a - b) + 2 ^ 64"
    using assms by simp
  have "(a + 2 ^ 64 - b mod 2 ^ 64) mod 2 ^ 64 = ((a - b) + 2 ^ 64) mod 2 ^ 64"
    by (simp only: 1 2)
  also have "\<dots> = (a - b) mod 2 ^ 64"
    by (rule mod_add_self2)
  also have "\<dots> = a - b"
    using assms by simp
  finally show ?thesis
    unfolding size_t_sub_def .
qed

lemma fseek_back: "fread f n = Some (bs, f1) \<Longrightarrow> fseek_set f1 (ftell f) = f"
  by (auto simp: fread_def fseek_set_def ftell_def split: if_splits)

lemma fread_SomeD:
  assumes "fread f n = Some (bs, f1)"
  shows "0 < n" and "pos f + n \<le> length (data f)" and "bs = take n (drop (pos f) (data f))"
    and "f1 = f\<lparr>pos := pos f + n\<rparr>"
  using assms by (auto simp: fread_def split: if_splits)

lemma decompressAndLoadV10_result:
  assumes fr: "fread f headSz = Some (head, f1)" and len: "length (data f) < 2 ^ 64"
    and ok: "decompressAndLoadV10 e f = Inr r"
  shows "\<not> buffer_blocks r" and "ptr r = 0"
    and "in_buffer r = head @ snd (LZ4_decompress_safe e (drop (pos f + headSz) (data f))
           (c_int (size_t_sub (size_t_sub (length (data f)) (pos f)) headSz))
           (c_int (size_t_sub (head_first_block_size head) headSz)))"
proof -
  note d = fread_SomeD [OF fr]
  have fs: "size_t_sub (length (data f)) (pos f) = length (data f) - pos f"
    using d(2) len by (simp add: size_t_sub_small)
  have whole: "fread (fseek_set f (ftell f)) (length (data f) - pos f) =
               Some (drop (pos f) (data f), f\<lparr>pos := length (data f)\<rparr>)"
    using d(1,2) by (simp add: fread_def fseek_set_def ftell_def headSz_def)
  have hd: "take headSz (drop (pos f) (data f)) = head"
    using d(3) by simp
  have h80: "length head = headSz"
    using d(2,3) by simp
  have split: "drop (pos f) (data f) = head @ drop (pos f + headSz) (data f)"
    using hd append_take_drop_id [of headSz "drop (pos f) (data f)"]
    by (simp add: add.commute)
  have fbs: "head_first_block_size (drop (pos f) (data f)) = head_first_block_size head"
    using h80 by (subst split) (simp add: headSz_def)
  from ok show "\<not> buffer_blocks r"
    by (auto simp: decompressAndLoadV10_def Let_def ftell_def fs whole [unfolded ftell_def] split: if_splits prod.splits)
  from ok show "ptr r = 0"
    by (auto simp: decompressAndLoadV10_def Let_def ftell_def fs whole [unfolded ftell_def] split: if_splits prod.splits)
  from ok show "in_buffer r = head @ snd (LZ4_decompress_safe e (drop (pos f + headSz) (data f))
           (c_int (size_t_sub (size_t_sub (length (data f)) (pos f)) headSz))
           (c_int (size_t_sub (head_first_block_size head) headSz)))"
    by (auto simp: decompressAndLoadV10_def Let_def ftell_def fs whole [unfolded ftell_def]
                   hd fbs add.commute
             split: if_splits prod.splits)
qed

lemma initBlock_current_result:
  assumes fr: "fread f headSz = Some (head, f1)" and nl: "\<not> is_v10 head"
    and ok: "LoadArchive_initBlock e f = Inr r"
  shows "buffer_blocks r" and "ptr r = 0"
    and "\<exists>dec. LZ4_decompress_safe_continue e []
                 (take (head_first_block_size head) (drop (pos f + headSz) (data f)))
                 BLOCK_BYTES = Some dec \<and>
               in_buffer r = head @ dec \<and> block_sz r = length dec + headSz"
proof -
  note d = fread_SomeD [OF fr]
  from ok fr nl show "buffer_blocks r"
    by (auto simp: LoadArchive_initBlock_def loadBlock_def
             split: if_splits option.splits prod.splits sum.splits)
  from ok fr nl show "ptr r = 0"
    by (auto simp: LoadArchive_initBlock_def loadBlock_def
             split: if_splits option.splits prod.splits sum.splits)
  from ok fr nl show "\<exists>dec. LZ4_decompress_safe_continue e []
                 (take (head_first_block_size head) (drop (pos f + headSz) (data f)))
                 BLOCK_BYTES = Some dec \<and>
               in_buffer r = head @ dec \<and> block_sz r = length dec + headSz"
    by (auto simp: LoadArchive_initBlock_def loadBlock_def d(4) fread_def add.commute
             split: if_splits option.splits prod.splits sum.splits)
qed

text \<open>
  C3, as the code has it.  After one header's worth of bytes has been read, the old
  format is recognised by bytes 13 and 15 of the header's signature field (the
  characters 1 and 0 of \<^verbatim>\<open>FLANN_INDEX_v1.0\<close>), not by the version field.  When they match,
  loading is \<open>decompressAndLoadV10\<close> on the stream put back to the position it had at
  entry: the whole remainder behind the header is handed to one decompression call and
  the archive has no double buffer.  Otherwise the block-framed decoding proceeds: the
  archive has the double buffer, and the active block is the header followed by the
  decompression of the \<open>first_block_size\<close> bytes behind it.
\<close>

theorem legacy_detection:
  assumes "malloc_ok e headSz" and "fread f headSz = Some (head, f1)"
    and "length (data f) < 2 ^ 64"
  shows "if head_signature head ! 13 = 49 \<and> head_signature head ! 15 = 48
         then LoadArchive_initBlock e f = decompressAndLoadV10 e f \<and>
              (\<forall>r. decompressAndLoadV10 e f = Inr r \<longrightarrow>
                 \<not> buffer_blocks r \<and> ptr r = 0 \<and>
                 in_buffer r =
                   head @ snd (LZ4_decompress_safe e (drop (pos f + headSz) (data f))
                     (c_int (size_t_sub (size_t_sub (length (data f)) (pos f)) headSz))
                     (c_int (size_t_sub (head_first_block_size head) headSz))))
         else (\<forall>r. LoadArchive_initBlock e f = Inr r \<longrightarrow>
                 buffer_blocks r \<and> ptr r = 0 \<and>
                 (\<exists>dec. LZ4_decompress_safe_continue e []
                          (take (head_first_block_size head) (drop (pos f + headSz) (data f)))
                          BLOCK_BYTES = Some dec \<and>
                        in_buffer r = head @ dec \<and> block_sz r = length dec + headSz))"
proof -
  have h80: "24 \<le> length head"
    using fread_SomeD(2,3) [OF assms(2)] by (simp add: headSz_def)
  note sig = is_v10_signature [OF h80]
  show ?thesis
  proof (cases "is_v10 head")
    case True
    have "LoadArchive_initBlock e f = decompressAndLoadV10 e f"
      using assms(1,2) True fseek_back [OF assms(2)]
      by (simp add: LoadArchive_initBlock_def Let_def)
    with True sig decompressAndLoadV10_result [OF assms(2,3)] show ?thesis
      by auto
  next
    case False
    with sig initBlock_current_result [OF assms(2) False] show ?thesis
      by auto
  qed
qed

lemma c_int_small [simp]: "c_int 3 = 3" "c_int 4 = 4"
  by (simp_all add: c_int_def)

lemma legacy_file_init:
  "LoadArchive_initBlock store_env \<lparr>data = demo_legacy_file c, pos = 0\<rparr> =
     (if c mod 2 ^ 64 \<noteq> 1 then Inl CompressionNotSupported
      else Inr \<lparr>in_stream = \<lparr>data = demo_legacy_file c, pos = 84\<rparr>,
                in_buffer = header_bytes (header_v10\<lparr>compression := c, first_block_size := 83\<rparr>)
                            @ [1, 2, 3],
                ptr = 0, block_sz = 83, buffer_blocks = False, lz4StreamDecode = []\<rparr>)"
proof -
  let ?h = "header_bytes (header_v10\<lparr>compression := c, first_block_size := 83\<rparr>)"
  let ?f = "\<lparr>data = ?h @ [0, 1, 2, 3], pos = 0\<rparr>"
  have v10: "is_v10 ?h"
    by (rule v10_is_v10) simp
  have m: "malloc_ok store_env n" for n
    by (simp add: store_env_def)
  have len: "length (data ?f) < 2 ^ 64"
    by simp
  have init: "LoadArchive_initBlock store_env ?f = decompressAndLoadV10 store_env ?f"
    using fread_header_bytes [of _ "[0, 1, 2, 3]"] v10 m
    by (simp add: LoadArchive_initBlock_def Let_def fseek_set_def ftell_def)
  have fs: "size_t_sub 84 0 = 84" "size_t_sub 84 80 = 4" "size_t_sub 83 80 = 3"
    by (simp_all add: size_t_sub_small)
  have whole: "fread ?f 84 = Some (?h @ [0, 1, 2, 3], ?f\<lparr>pos := 84\<rparr>)"
    by (simp add: fread_def)
  have dec: "LZ4_decompress_safe store_env [0, 1, 2, 3] 4 3 = (3, [1, 2, 3])"
    by (simp add: store_env_def)
  have "decompressAndLoadV10 store_env ?f =
     (if c mod 2 ^ 64 \<noteq> 1 then Inl CompressionNotSupported
      else Inr \<lparr>in_stream = \<lparr>data = ?h @ [0, 1, 2, 3], pos = 84\<rparr>,
                in_buffer = ?h @ [1, 2, 3],
                ptr = 0, block_sz = 83, buffer_blocks = False, lz4StreamDecode = []\<rparr>)"
    using m by (simp add: decompressAndLoadV10_def Let_def ftell_def fseek_set_def fs whole dec
                  c_size_t_def headSz_def)
  with init show ?thesis
    by (simp add: demo_legacy_file_def)
qed

lemma current_file_init:
  "LoadArchive_initBlock store_env \<lparr>data = demo_current_file c, pos = 0\<rparr> =
     Inr \<lparr>in_stream = \<lparr>data = demo_current_file c, pos = 84\<rparr>,
          in_buffer = header_bytes (header_v11\<lparr>compression := c, first_block_size := 4\<rparr>)
                      @ [1, 2, 3],
          ptr = 0, block_sz = 83, buffer_blocks = True, lz4StreamDecode = [[1, 2, 3]]\<rparr>"
proof -
  let ?h = "header_bytes (header_v11\<lparr>compression := c, first_block_size := 4\<rparr>)"
  have nv: "\<not> is_v10 ?h"
    by (rule v11_not_v10) simp
  have m: "malloc_ok store_env n" for n
    by (simp add: store_env_def)
  have dec: "LZ4_decompress_safe_continue store_env [] [0, 1, 2, 3] n = Some [1, 2, 3]" for n
    by (simp add: store_env_def)
  show ?thesis
    using fread_header_bytes [of "header_v11\<lparr>compression := c, first_block_size := 4\<rparr>"
            "[0, 1, 2, 3] @ le_bytes 8 0"] nv m
    by (simp add: LoadArchive_initBlock_def Let_def demo_current_file_def loadBlock_def
          store_bound fread_def dec headSz_def)
qed

text \<open>
  C3 as stated fails: two files whose headers carry the same version field, one loaded
  by the old procedure and one by the block-framed one.
\<close>

theorem legacy_detection_counterexample:
  "head_version (take headSz (demo_legacy_file 1)) =
     head_version (take headSz (demo_current_file 1)) \<and>
   (\<exists>r. LoadArchive_initBlock store_env \<lparr>data = demo_legacy_file 1, pos = 0\<rparr> = Inr r \<and>
        \<not> buffer_blocks r) \<and>
   (\<exists>r. LoadArchive_initBlock store_env \<lparr>data = demo_current_file 1, pos = 0\<rparr> = Inr r \<and>
        buffer_blocks r)"
  by (simp add: legacy_file_init current_file_init)
     (simp add: demo_legacy_file_def demo_current_file_def headSz_def header_v10_def)

theorem legacy_detection_witness:
  "(\<exists>r. LoadArchive_initBlock store_env \<lparr>data = demo_legacy_file 1, pos = 0\<rparr> = Inr r \<and>
        decompressAndLoadV10 store_env \<lparr>data = demo_legacy_file 1, pos = 0\<rparr> = Inr r \<and>
        \<not> buffer_blocks r) \<and>
   (\<exists>r. LoadArchive_initBlock store_env \<lparr>data = demo_current_file 1, pos = 0\<rparr> = Inr r \<and>
        buffer_blocks r \<and> block_sz r = 83)"
proof
  let ?h = "header_v10\<lparr>compression := 1, first_block_size := 83\<rparr>"
  let ?f = "\<lparr>data = demo_legacy_file 1, pos = 0\<rparr>"
  have m: "malloc_ok store_env headSz"
    by (simp add: store_env_def)
  have fr: "fread ?f headSz = Some (header_bytes ?h, \<lparr>data = demo_legacy_file 1, pos = 80\<rparr>)"
    using fread_header_bytes [of ?h "[0, 1, 2, 3]"] by (simp add: demo_legacy_file_def)
  have len: "length (data ?f) < 2 ^ 64"
    by (simp add: demo_legacy_file_def)
  have sig: "head_signature (header_bytes ?h) ! 13 = 49 \<and> head_signature (header_bytes ?h) ! 15 = 48"
    using v10_is_v10 [of ?h] by (simp add: is_v10_header_bytes)
  from legacy_detection [OF m fr len] sig
  have "LoadArchive_initBlock store_env ?f = decompressAndLoadV10 store_env ?f \<and>
        (\<forall>r. decompressAndLoadV10 store_env ?f = Inr r \<longrightarrow> \<not> buffer_blocks r)"
    by simp
  moreover have "\<exists>r. LoadArchive_initBlock store_env ?f = Inr r"
    by (simp add: legacy_file_init)
  ultimately show "\<exists>r. LoadArchive_initBlock store_env ?f = Inr r \<and>
        decompressAndLoadV10 store_env ?f = Inr r \<and> \<not> buffer_blocks r"
    by auto
next
  let ?h = "header_v11\<lparr>compression := 1, first_block_size := 4\<rparr>"
  let ?f = "\<lparr>data = demo_current_file 1, pos = 0\<rparr>"
  have m: "malloc_ok store_env headSz"
    by (simp add: store_env_def)
  have fr: "fread ?f headSz = Some (header_bytes ?h, \<lparr>data = demo_current_file 1, pos = 80\<rparr>)"
    using fread_header_bytes [of ?h "[0, 1, 2, 3] @ le_bytes 8 0"]
    by (simp add: demo_current_file_def)
  have len: "length (data ?f) < 2 ^ 64"
    by (simp add: demo_current_file_def)
  have sig: "\<not> (head_signature (header_bytes ?h) ! 13 = 49 \<and>
                head_signature (header_bytes ?h) ! 15 = 48)"
    using v11_not_v10 [of ?h] by (simp add: is_v10_header_bytes)
  from legacy_detection [OF m fr len] sig
  have "\<forall>r. LoadArchive_initBlock store_env ?f = Inr r \<longrightarrow> buffer_blocks r"
    by simp
  moreover have "\<exists>r. LoadArchive_initBlock store_env ?f = Inr r \<and> block_sz r = 83"
    by (simp add: current_file_init)
  ultimately show "\<exists>r. LoadArchive_initBlock store_env ?f = Inr r \<and> buffer_blocks r \<and>
        block_sz r = 83"
    by auto
qed

section \<open>The compression flag\<close>

lemma current_file_sentinel:
  "fread \<lparr>data = demo_current_file c, pos = 84\<rparr> 8 =
     Some ([0, 0, 0, 0, 0, 0, 0, 0], \<lparr>data = demo_current_file c, pos = 92\<rparr>)"
  by (simp add: fread_def demo_current_file_def)

text \<open>
  C4.  A file of the current format whose header has the compression flag 2 is loaded
  without complaint; the same flag in a file of the old format is refused.
\<close>

theorem unsupported_compression_tag_accepted:
  "load_file store_env (demo_current_file 2) [TArray 3] =
     Inr (header_bytes (header_v11\<lparr>compression := 2, first_block_size := 4\<rparr>),
          [Array [1, 2, 3]]) \<and>
   load_file store_env (demo_legacy_file 2) [TArray 3] = Inl CompressionNotSupported"
  by (simp add: load_file_def current_file_init legacy_file_init load_def preparePtr_def
        headSz_def LoadArchive_endBlock_def current_file_sentinel)

lemma legacy_rejects_unsupported_compression:
  assumes "malloc_ok e headSz" and "fread f headSz = Some (head, f1)" and "is_v10 head"
    and "length (data f) < 2 ^ 64" and "malloc_ok e (length (data f) - pos f)"
    and "head_compression head \<noteq> 1"
  shows "LoadArchive_initBlock e f = Inl CompressionNotSupported"
proof -
  note d = fread_SomeD [OF assms(2)]
  have init: "LoadArchive_initBlock e f = decompressAndLoadV10 e f"
    using assms(1,2,3) fseek_back [OF assms(2)]
    by (simp add: LoadArchive_initBlock_def Let_def)
  have fs: "size_t_sub (length (data f)) (pos f) = length (data f) - pos f"
    using d(2) assms(4) by (simp add: size_t_sub_small)
  have whole: "fread (fseek_set f (pos f)) (length (data f) - pos f) =
               Some (drop (pos f) (data f), f\<lparr>pos := length (data f)\<rparr>)"
    using d(1,2) by (simp add: fread_def fseek_set_def headSz_def)
  have hd: "take headSz (drop (pos f) (data f)) = head"
    using d(3) by simp
  have split: "drop (pos f) (data f) = head @ drop (pos f + headSz) (data f)"
    using hd append_take_drop_id [of headSz "drop (pos f) (data f)"]
    by (simp add: add.commute)
  have h80: "length head = headSz"
    using d(2,3) by simp
  have "head_compression (drop (pos f) (data f)) = head_compression head"
    using h80 by (subst split) (simp add: headSz_def)
  with assms(5,6) have "decompressAndLoadV10 e f = Inl CompressionNotSupported"
    by (simp add: decompressAndLoadV10_def Let_def ftell_def fs whole)
  with init show ?thesis by simp
qed

section \<open>The end-of-stream sentinel\<close>

text \<open>
  C5.  Destroying a \<open>SaveArchive\<close> flushes the active block and then writes eight zero
  bytes.  Destroying a \<open>LoadArchive\<close> of the current format reads eight bytes and accepts
  only the value zero: a stream that ends before them gives \<open>ReadEnd\<close>, any other value
  gives \<open>LastBlockNotZero\<close>.  In particular a reader placed in front of the sentinel
  succeeds on the file as written and fails on the file cut in front of its sentinel.
\<close>

theorem sentinel_enforced:
  "(\<forall>s'. SaveArchive_close e s = Inr s' \<longrightarrow>
      (\<exists>s1. flushBlock e s = Inr s1 \<and> stream s' = stream s1 @ replicate 8 0) \<and>
      (buffer_blocks r \<and> pos (in_stream r) = length (stream s') - 8 \<longrightarrow>
         (data (in_stream r) = stream s' \<longrightarrow> (\<exists>r'. LoadArchive_endBlock r = Inr r')) \<and>
         (data (in_stream r) = take (length (stream s') - 8) (stream s') \<longrightarrow>
            LoadArchive_endBlock r = Inl ReadEnd))) \<and>
   (buffer_blocks r \<longrightarrow>
      (length (data (in_stream r)) < pos (in_stream r) + 8 \<longrightarrow>
         LoadArchive_endBlock r = Inl ReadEnd) \<and>
      (\<forall>zero f. fread (in_stream r) 8 = Some (zero, f) \<longrightarrow>
         LoadArchive_endBlock r =
           (if le_nat zero \<noteq> 0 then Inl LastBlockNotZero
            else Inr (r\<lparr>in_stream := f, buffer_blocks := False, ptr := 0\<rparr>))))"
proof (intro conjI allI impI)
  fix s' assume c: "SaveArchive_close e s = Inr s'"
  then obtain s1 where s1: "flushBlock e s = Inr s1" and s': "s' = SaveArchive_endBlock s1"
    by (auto simp: SaveArchive_close_def split: sum.splits)
  then show "\<exists>s1. flushBlock e s = Inr s1 \<and> stream s' = stream s1 @ replicate 8 0"
    by (simp add: SaveArchive_endBlock_def le_bytes_zero del: le_bytes_numeral)
  have st: "stream s' = stream s1 @ replicate 8 0"
    using s' by (simp add: SaveArchive_endBlock_def le_bytes_zero del: le_bytes_numeral)
  {
    assume r: "buffer_blocks r \<and> pos (in_stream r) = length (stream s') - 8"
      and d: "data (in_stream r) = stream s'"
    have "fread (in_stream r) 8 =
            Some (replicate 8 0, (in_stream r)\<lparr>pos := pos (in_stream r) + 8\<rparr>)"
      using r d st by (simp add: fread_def)
    with r show "\<exists>r'. LoadArchive_endBlock r = Inr r'"
      by (simp add: LoadArchive_endBlock_def)
  }
  {
    assume r: "buffer_blocks r \<and> pos (in_stream r) = length (stream s') - 8"
      and d: "data (in_stream r) = take (length (stream s') - 8) (stream s')"
    have "fread (in_stream r) 8 = None"
      using r d st by (simp add: fread_def)
    with r show "LoadArchive_endBlock r = Inl ReadEnd"
      by (simp add: LoadArchive_endBlock_def)
  }
next
  assume "buffer_blocks r" and "length (data (in_stream r)) < pos (in_stream r) + 8"
  then show "LoadArchive_endBlock r = Inl ReadEnd"
    by (simp add: LoadArchive_endBlock_def fread_def)
next
  fix zero f
  assume "buffer_blocks r" and "fread (in_stream r) 8 = Some (zero, f)"
  then show "LoadArchive_endBlock r =
           (if le_nat zero \<noteq> 0 then Inl LastBlockNotZero
            else Inr (r\<lparr>in_stream := f, buffer_blocks := False, ptr := 0\<rparr>))"
    by (simp add: LoadArchive_endBlock_def)
qed

lemma demo_first_close:
  "\<exists>s'. SaveArchive_close store_env demo_first = Inr s' \<and> length (stream s') = 92"
proof -
  from demo_first_flush obtain s1 where s1: "flushBlock store_env demo_first = Inr s1" ..
  have fb: "first_block demo_first" by (simp add: demo_first_def)
  from flushBlock_first(5) [OF fb s1]
  have "length (stream s1) = 84"
    by (simp add: demo_first_def store_env_def headSz_def)
  with s1 show ?thesis
    by (simp add: SaveArchive_close_def SaveArchive_endBlock_def)
qed

theorem sentinel_enforced_witness:
  "(\<exists>s'. SaveArchive_close store_env demo_first = Inr s' \<and>
         drop 84 (stream s') = replicate 8 0 \<and>
         (\<exists>r'. LoadArchive_endBlock
                 ((demo_reader [])\<lparr>in_stream := \<lparr>data = stream s', pos = 84\<rparr>\<rparr>) = Inr r') \<and>
         LoadArchive_endBlock
           ((demo_reader [])\<lparr>in_stream := \<lparr>data = take 84 (stream s'), pos = 84\<rparr>\<rparr>) =
           Inl ReadEnd) \<and>
   LoadArchive_endBlock (demo_reader [1, 0, 0, 0, 0, 0, 0, 0]) = Inl LastBlockNotZero \<and>
   LoadArchive_endBlock (demo_reader [0, 0, 0, 0, 0, 0, 0]) = Inl ReadEnd"
proof (intro conjI)
  from demo_first_close obtain s' where
    c: "SaveArchive_close store_env demo_first = Inr s'" and l: "length (stream s') = 92"
    by blast
  let ?r1 = "(demo_reader [])\<lparr>in_stream := \<lparr>data = stream s', pos = 84\<rparr>\<rparr>"
  let ?r2 = "(demo_reader [])\<lparr>in_stream := \<lparr>data = take 84 (stream s'), pos = 84\<rparr>\<rparr>"
  from sentinel_enforced [of store_env demo_first ?r1] c l
  have a: "(\<exists>s1. flushBlock store_env demo_first = Inr s1 \<and>
                 stream s' = stream s1 @ replicate 8 0)"
    and b: "\<exists>r'. LoadArchive_endBlock ?r1 = Inr r'"
    by (simp_all add: demo_reader_def)
  from a l have d: "drop 84 (stream s') = replicate 8 0"
    by auto
  from sentinel_enforced [of store_env demo_first ?r2] c l
  have e: "LoadArchive_endBlock ?r2 = Inl ReadEnd"
    by (simp add: demo_reader_def)
  from c d b e show "\<exists>s'. SaveArchive_close store_env demo_first = Inr s' \<and>
         drop 84 (stream s') = replicate 8 0 \<and>
         (\<exists>r'. LoadArchive_endBlock
                 ((demo_reader [])\<lparr>in_stream := \<lparr>data = stream s', pos = 84\<rparr>\<rparr>) = Inr r') \<and>
         LoadArchive_endBlock
           ((demo_reader [])\<lparr>in_stream := \<lparr>data = take 84 (stream s'), pos = 84\<rparr>\<rparr>) =
           Inl ReadEnd"
    by blast
next
  let ?r = "demo_reader [1, 0, 0, 0, 0, 0, 0, 0]"
  have "fread (in_stream ?r) 8 =
          Some ([1, 0, 0, 0, 0, 0, 0, 0], \<lparr>data = [1, 0, 0, 0, 0, 0, 0, 0], pos = 8\<rparr>)"
    by (simp add: fread_def demo_reader_def)
  with sentinel_enforced [of store_env demo_first ?r]
  show "LoadArchive_endBlock ?r = Inl LastBlockNotZero"
    by (simp add: demo_reader_def)
next
  let ?r = "demo_reader [0, 0, 0, 0, 0, 0, 0]"
  from sentinel_enforced [of store_env demo_first ?r]
  show "LoadArchive_endBlock ?r = Inl ReadEnd"
    by (simp add: demo_reader_def)
qed

section \<open>Pointers\<close>

text \<open>
  C7.  Saving a pointer leaves the \<open>SaveArchive\<close> as it is, so a pointer field adds
  nothing to what the other fields write; loading a pointer leaves the \<open>LoadArchive\<close> as
  it is and the target keeps the pointer it had.
\<close>

theorem pointers_skipped:
  "save_pointer s p = s \<and>
   Serializer_save (as_SaveArchive e) s (Pointer p) = Inr s \<and>
   save_elements (as_SaveArchive e) s (Pointer p # vs) =
     save_elements (as_SaveArchive e) s vs \<and>
   load_pointer r p = (p, r) \<and>
   Serializer_load e TPointer (Pointer p) r = Inr (Pointer p, r) \<and>
   load_fields e (TPointer # ts) (Pointer p # olds) r =
     (case load_fields e ts olds r of
        Inl err \<Rightarrow> Inl err
      | Inr (ys, r2) \<Rightarrow> Inr (Pointer p # ys, r2))"
  by (simp add: as_SaveArchive_def save_pointer_def load_pointer_def)

theorem pointers_skipped_witness:
  "Serializer_save (as_SaveArchive store_env) demo_first (Pointer 4096) = Inr demo_first \<and>
   Serializer_load store_env TPointer (Pointer 4096) (demo_reader [1, 2]) =
     Inr (Pointer 4096, demo_reader [1, 2])"
  using pointers_skipped [of demo_first 4096 store_env "[]" "demo_reader [1, 2]" "[]" "[]"]
  by simp

text \<open>
  C2.  For an object with a four-byte scalar and a pointer, \<open>SizeArchive\<close> counts 12 bytes
  and \<open>SaveArchive\<close> copies 4.
\<close>

theorem size_archive_counts_pointers:
  "Serializer_save as_SizeArchive \<lparr>size_acc = 0\<rparr>
     (Object [Scalar [1, 2, 3, 4], Pointer 4096]) = Inr \<lparr>size_acc = 12\<rparr> \<and>
   (\<exists>s'. Serializer_save (as_SaveArchive store_env) demo_first
           (Object [Scalar [1, 2, 3, 4], Pointer 4096]) = Inr s' \<and>
         copied s' = copied demo_first + 4 \<and>
         buffer s' = buffer demo_first @ [1, 2, 3, 4])"
  by (simp add: as_SizeArchive_def SizeArchive_save_def as_SaveArchive_def save_pointer_def
        save_def demo_first_def BLOCK_BYTES_def memcpy_at_def copied_def)

section \<open>The header in front of the first block\<close>

lemma flushBlock_not_first: "flushBlock e s = Inr s' \<Longrightarrow> \<not> first_block s'"
  by (auto simp: flushBlock_def Let_def split: if_splits)

lemma flushBlock_header_in_place:
  assumes "header_in_place s"
  shows "flushBlock e s = Inl err \<Longrightarrow> err \<notin> header_failures"
    and "flushBlock e s = Inr s' \<Longrightarrow> header_in_place s'"
proof -
  show "flushBlock e s = Inl err \<Longrightarrow> err \<notin> header_failures"
    using assms
    by (auto simp: flushBlock_def header_in_place_def header_failures_def Let_def
             split: if_splits)
  show "flushBlock e s = Inr s' \<Longrightarrow> header_in_place s'"
    using flushBlock_not_first [of e s s'] by (simp add: header_in_place_def)
qed

lemma head_compression_memcpy_at:
  assumes "72 \<le> length buf" and "72 \<le> off"
  shows "head_compression (memcpy_at buf off v) = head_compression buf"
proof -
  have "drop 64 (take off buf) = take (off - 64) (drop 64 buf)"
    by (simp add: drop_take)
  moreover have "min 8 (off - 64) = 8"
    using assms by simp
  ultimately have "take 8 (drop 64 (take off buf)) = take 8 (drop 64 buf)"
    by simp
  moreover have "64 + 8 \<le> length (take off buf)"
    using assms by simp
  ultimately show ?thesis
    by (simp add: head_compression_def memcpy_at_def)
qed

lemma header_in_place_write:
  assumes "header_in_place s"
  shows "header_in_place
           (s\<lparr>buffer := memcpy_at (buffer s) (offset s) v, offset := offset s + length v\<rparr>)"
proof -
  have "length (buffer s) \<le> length (memcpy_at (buffer s) (offset s) v)" if "72 \<le> offset s"
    by (simp add: memcpy_at_def)
  with assms show ?thesis
    by (auto simp: header_in_place_def head_compression_memcpy_at headSz_def)
qed

lemma save_header_in_place:
  assumes "header_in_place s"
  shows "save e s v = Inl err \<Longrightarrow> err \<notin> header_failures"
    and "save e s v = Inr s' \<Longrightarrow> header_in_place s'"
proof -
  show "save e s v = Inl err \<Longrightarrow> err \<notin> header_failures"
    using flushBlock_header_in_place(1) [OF assms, of e]
    by (auto simp: save_def header_failures_def split: if_splits sum.splits)
  show "save e s v = Inr s' \<Longrightarrow> header_in_place s'"
    using flushBlock_header_in_place(2) [OF assms, of e] header_in_place_write assms
    by (auto simp: save_def split: if_splits sum.splits)
qed

lemma save_binary_chunks_header_in_place:
  "header_in_place s \<Longrightarrow>
   (\<forall>err. save_binary_chunks e s src = Inl err \<longrightarrow> err \<notin> header_failures) \<and>
   (\<forall>s' rest. save_binary_chunks e s src = Inr (s', rest) \<longrightarrow> header_in_place s')"
proof (induction e s src rule: save_binary_chunks.induct)
  case (1 e s src)
  show ?case
  proof (cases "length src > BLOCK_BYTES")
    case False
    with "1.prems" show ?thesis
      by (simp add: save_binary_chunks.simps [of e s src])
  next
    case True
    show ?thesis
    proof (cases "flushBlock e s")
      case (Inl err)
      with True flushBlock_header_in_place(1) [OF "1.prems" Inl] show ?thesis
        by (simp add: save_binary_chunks.simps [of e s src])
    next
      case (Inr s1)
      have "header_in_place s1"
        using flushBlock_header_in_place(2) [OF "1.prems" Inr] .
      moreover have "\<not> first_block s1"
        using flushBlock_not_first [OF Inr] .
      ultimately have "header_in_place
         (s1\<lparr>buffer := memcpy_at (buffer s1) 0 (take BLOCK_BYTES src),
             offset := offset s1 + BLOCK_BYTES\<rparr>)"
        by (simp add: header_in_place_def)
      from "1.IH" [OF True Inr this] True Inr show ?thesis
        by (simp add: save_binary_chunks.simps [of e s src])
    qed
  qed
qed

lemma save_binary_header_in_place:
  assumes "header_in_place s"
  shows "save_binary e s v = Inl err \<Longrightarrow> err \<notin> header_failures"
    and "save_binary e s v = Inr s' \<Longrightarrow> header_in_place s'"
proof -
  note c = save_binary_chunks_header_in_place [OF assms, of e v]
  show "save_binary e s v = Inl err \<Longrightarrow> err \<notin> header_failures"
  proof (cases "save_binary_chunks e s v")
    case (Inl x)
    assume "save_binary e s v = Inl err"
    with Inl c show ?thesis
      by (simp add: save_binary_def)
  next
    case (Inr p)
    obtain s1 rest where p: "p = (s1, rest)"
      by (cases p)
    assume err: "save_binary e s v = Inl err"
    from c Inr p have h1: "header_in_place s1"
      by simp
    from err Inr p have "flushBlock e s1 = Inl err"
      by (auto simp: save_binary_def split: if_splits sum.splits)
    with flushBlock_header_in_place(1) [OF h1] show ?thesis
      by simp
  qed
  show "save_binary e s v = Inr s' \<Longrightarrow> header_in_place s'"
  proof (cases "save_binary_chunks e s v")
    case (Inl x)
    assume "save_binary e s v = Inr s'"
    with Inl show ?thesis
      by (simp add: save_binary_def)
  next
    case (Inr p)
    obtain s1 rest where p: "p = (s1, rest)"
      by (cases p)
    assume ok: "save_binary e s v = Inr s'"
    from c Inr p have h1: "header_in_place s1"
      by simp
    define s2 where
      "s2 = (if offset s1 + length rest > BLOCK_BYTES
             then (case flushBlock e s1 of Inr x \<Rightarrow> x | Inl y \<Rightarrow> s1) else s1)"
    have fl: "offset s1 + length rest > BLOCK_BYTES \<Longrightarrow> flushBlock e s1 = Inr s2"
      using ok Inr p by (cases "flushBlock e s1") (simp_all add: save_binary_def s2_def)
    have s': "s' = s2\<lparr>buffer := memcpy_at (buffer s2) (offset s2) rest,
                     offset := offset s2 + length rest\<rparr>"
      using ok Inr p
      by (cases "flushBlock e s1") (auto simp: save_binary_def s2_def split: if_splits)
    have "header_in_place s2"
    proof (cases "offset s1 + length rest > BLOCK_BYTES")
      case True
      from flushBlock_header_in_place(2) [OF h1 fl [OF True]] show ?thesis .
    next
      case False
      with h1 show ?thesis by (simp add: s2_def)
    qed
    with s' header_in_place_write show ?thesis
      by simp
  qed
qed

lemma keeps_header_simps [simp]:
  "keeps_header (Inl err) \<longleftrightarrow> err \<notin> header_failures"
  "keeps_header (Inr s') \<longleftrightarrow> header_in_place s'"
  by (simp_all add: keeps_header_def)

lemma keeps_header_save: "header_in_place s \<Longrightarrow> keeps_header (save e s v)"
  using save_header_in_place [of s e v] by (cases "save e s v") auto

lemma keeps_header_save_binary: "header_in_place s \<Longrightarrow> keeps_header (save_binary e s v)"
  using save_binary_header_in_place [of s e v] by (cases "save_binary e s v") auto

lemma keeps_header_bind:
  assumes "keeps_header res" and "\<And>s1. res = Inr s1 \<Longrightarrow> header_in_place s1 \<Longrightarrow> keeps_header (f s1)"
  shows "keeps_header (case res of Inl err \<Rightarrow> Inl err | Inr s1 \<Rightarrow> f s1)"
  using assms by (cases res) auto

lemma keeps_header_Serializer_save:
  "ar = as_SaveArchive e \<Longrightarrow> header_in_place s \<Longrightarrow> keeps_header (Serializer_save ar s v)"
  "ar = as_SaveArchive e \<Longrightarrow> header_in_place s \<Longrightarrow> keeps_header (save_elements ar s xs)"
  "ar = as_SaveArchive e \<Longrightarrow> header_in_place s \<Longrightarrow> keeps_header (save_entries ar s m)"
proof (induction ar s v and ar s xs and ar s m
       rule: Serializer_save_save_elements_save_entries.induct)
  case (1 ar a v)
  then show ?case by (simp add: as_SaveArchive_def keeps_header_save)
next
  case (2 ar a i)
  then show ?case by (simp add: as_SaveArchive_def keeps_header_save del: le_bytes_numeral)
next
  case (3 ar a xs)
  have "keeps_header (ar_save ar a (le_bytes 8 (length xs)))"
    using 3(2,3) by (simp add: as_SaveArchive_def keeps_header_save del: le_bytes_numeral)
  then show ?case
    unfolding Serializer_save.simps
    by (rule keeps_header_bind) (rule 3(1) [OF _ 3(2)])
next
  case (4 ar a m)
  have "keeps_header (ar_save ar a (le_bytes 8 (length m)))"
    using 4(2,3) by (simp add: as_SaveArchive_def keeps_header_save del: le_bytes_numeral)
  then show ?case
    unfolding Serializer_save.simps
    by (rule keeps_header_bind) (rule 4(1) [OF _ 4(2)])
next
  case (5 ar a p)
  then show ?case by (simp add: as_SaveArchive_def save_pointer_def)
next
  case (6 ar a v)
  then show ?case by (simp add: as_SaveArchive_def keeps_header_save)
next
  case (7 ar a b)
  then show ?case by (simp add: as_SaveArchive_def keeps_header_save_binary)
next
  case (8 ar a fs)
  then show ?case by simp
next
  case (9 ar a)
  then show ?case by simp
next
  case (10 ar a x xs)
  have "keeps_header (Serializer_save ar a x)"
    using 10(1) [OF 10(3,4)] .
  then show ?case
    unfolding save_elements.simps
    by (rule keeps_header_bind) (rule 10(2) [OF _ 10(3)])
next
  case (11 ar a)
  then show ?case by simp
next
  case (12 ar a k v m)
  have "keeps_header (Serializer_save ar a k)"
    using 12(1) [OF 12(4,5)] .
  then show ?case
    unfolding save_entries.simps
  proof (rule keeps_header_bind)
    fix s1 assume k: "Serializer_save ar a k = Inr s1" and h1: "header_in_place s1"
    have "keeps_header (Serializer_save ar s1 v)"
      using 12(2) [OF k 12(4) h1] .
    then show "keeps_header (case Serializer_save ar s1 v of Inl err \<Rightarrow> Inl err
                 | Inr a2 \<Rightarrow> save_entries ar a2 m)"
      by (rule keeps_header_bind) (rule 12(3) [OF k _ 12(4)])
  qed
qed

lemma close_keeps_header:
  assumes "header_in_place s" and "SaveArchive_close e s = Inl err"
  shows "err \<notin> header_failures"
  using assms flushBlock_header_in_place(1) [OF assms(1), of e err]
  by (cases "flushBlock e s") (simp_all add: SaveArchive_close_def)

lemma header_saved_first:
  assumes "SaveArchive_initBlock e file = Inr s0" and "length head = headSz"
    and "Serializer_save (as_SaveArchive e) s0 (Array head) = Inr s1"
  shows "s1 = \<lparr>stream = file, buffer = head, offset = headSz, first_block = True,
              lz4Stream = []\<rparr>"
proof -
  from assms(1) have s0: "s0 = \<lparr>stream = file, buffer = [], offset = 0, first_block = True,
      lz4Stream = []\<rparr>"
    by (auto simp: SaveArchive_initBlock_def split: if_splits)
  from assms(3) show ?thesis
    unfolding s0 using assms(2)
    by (simp add: as_SaveArchive_def save_def memcpy_at_def headSz_def BLOCK_BYTES_def)
qed

text \<open>
  C10.  Let the first value saved into a fresh \<open>SaveArchive\<close> be a header of 80 bytes
  whose compression field is 0.  Then neither the saves that follow nor the destructor
  end in a failed assertion on the compression field, in a read of header bytes that
  were never written, or in an underflow of \<open>offset - headSz\<close>; this holds already when
  the header is the only value saved.  An archive destroyed without any save does read
  a header that was never written.
\<close>

theorem header_first_flush_safe:
  assumes "SaveArchive_initBlock e file = Inr s0"
    and "length head = headSz" and "head_compression head = 0"
    and "Serializer_save (as_SaveArchive e) s0 (Array head) = Inr s1"
  shows "SaveArchive_close e s0 = Inl UninitialisedHeader \<and>
         (\<forall>err. SaveArchive_close e s1 = Inl err \<longrightarrow>
            err \<notin> {AssertCompression, SizeUnderflow, UninitialisedHeader}) \<and>
         (\<forall>err. save_elements (as_SaveArchive e) s1 vs = Inl err \<longrightarrow>
            err \<notin> {AssertCompression, SizeUnderflow, UninitialisedHeader}) \<and>
         (\<forall>s2 err. save_elements (as_SaveArchive e) s1 vs = Inr s2 \<longrightarrow>
            SaveArchive_close e s2 = Inl err \<longrightarrow>
            err \<notin> {AssertCompression, SizeUnderflow, UninitialisedHeader})"
proof -
  from assms(1) have s0: "s0 = \<lparr>stream = file, buffer = [], offset = 0, first_block = True,
      lz4Stream = []\<rparr>"
    by (auto simp: SaveArchive_initBlock_def split: if_splits)
  have a: "SaveArchive_close e s0 = Inl UninitialisedHeader"
    unfolding s0 by (simp add: SaveArchive_close_def flushBlock_def)
  note s1 = header_saved_first [OF assms(1,2,4)]
  have h1: "header_in_place s1"
    unfolding s1 using assms(2,3) by (simp add: header_in_place_def headSz_def)
  note k = keeps_header_Serializer_save(2) [OF refl h1, of e vs]
  have b: "\<forall>err. SaveArchive_close e s1 = Inl err \<longrightarrow>
            err \<notin> {AssertCompression, SizeUnderflow, UninitialisedHeader}"
    using close_keeps_header [OF h1] by (simp add: header_failures_def)
  have c: "\<forall>err. save_elements (as_SaveArchive e) s1 vs = Inl err \<longrightarrow>
            err \<notin> {AssertCompression, SizeUnderflow, UninitialisedHeader}"
    using k by (auto simp: header_failures_def)
  have d: "\<forall>s2 err. save_elements (as_SaveArchive e) s1 vs = Inr s2 \<longrightarrow>
            SaveArchive_close e s2 = Inl err \<longrightarrow>
            err \<notin> {AssertCompression, SizeUnderflow, UninitialisedHeader}"
  proof (intro allI impI)
    fix s2 err
    assume "save_elements (as_SaveArchive e) s1 vs = Inr s2"
      and e: "SaveArchive_close e s2 = Inl err"
    with k have "header_in_place s2" by simp
    from close_keeps_header [OF this e]
    show "err \<notin> {AssertCompression, SizeUnderflow, UninitialisedHeader}"
      by (simp add: header_failures_def)
  qed
  from a b c d show ?thesis by blast
qed

theorem header_first_flush_safe_witness:
  "\<exists>s0 s1 s2 s3.
     SaveArchive_initBlock store_env [] = Inr s0 \<and>
     length (header_bytes header_v11) = headSz \<and>
     head_compression (header_bytes header_v11) = 0 \<and>
     Serializer_save (as_SaveArchive store_env) s0 (Array (header_bytes header_v11)) = Inr s1 \<and>
     save_elements (as_SaveArchive store_env) s1 [Scalar [1, 2, 3]] = Inr s2 \<and>
     SaveArchive_close store_env s2 = Inr s3 \<and>
     SaveArchive_close store_env s0 = Inl UninitialisedHeader"
proof -
  let ?h = "header_bytes header_v11"
  let ?s0 = "\<lparr>stream = [], buffer = [], offset = 0, first_block = True, lz4Stream = []\<rparr>"
  let ?s1 = "\<lparr>stream = [], buffer = ?h, offset = 80, first_block = True, lz4Stream = []\<rparr>"
  have i: "SaveArchive_initBlock store_env [] = Inr ?s0"
    by (simp add: SaveArchive_initBlock_def store_env_def)
  have l: "length ?h = headSz"
    by (simp add: headSz_def)
  have c: "head_compression ?h = 0"
    by (simp add: header_v11_def)
  have h: "Serializer_save (as_SaveArchive store_env) ?s0 (Array ?h) = Inr ?s1"
    by (simp add: as_SaveArchive_def save_def memcpy_at_def BLOCK_BYTES_def)
  have v: "save_elements (as_SaveArchive store_env) ?s1 [Scalar [1, 2, 3]] = Inr demo_first"
    by (simp add: as_SaveArchive_def save_def memcpy_at_def BLOCK_BYTES_def demo_first_def)
  from demo_first_close obtain s3 where s3: "SaveArchive_close store_env demo_first = Inr s3"
    by blast
  from header_first_flush_safe [OF i l c h, of "[Scalar [1, 2, 3]]"]
  have "SaveArchive_close store_env ?s0 = Inl UninitialisedHeader"
    by blast
  with i l c h v s3 show ?thesis
    by blast
qed

section \<open>The future of a writer\<close>

lemma memcpy_at_end [simp]: "memcpy_at buf (length buf) v = buf @ v"
  by (simp add: memcpy_at_def)

lemma flushBlock_winv:
  assumes "winv s" and "flushBlock e s = Inr s'"
  shows "s' = s\<lparr>stream := stream s @ chunk_of e s (payload s), buffer := [], offset := 0,
                 first_block := False, lz4Stream := lz4Stream s @ [payload s]\<rparr>"
proof (cases "first_block s")
  case True
  have "take (offset s - headSz) (drop headSz (buffer s)) = payload s"
    using assms(1) True by (simp add: winv_def payload_def hdr_len_def)
  with flushBlock_first(5) [OF True assms(2)] True show ?thesis
    by (simp add: chunk_of_def Let_def del: le_bytes_numeral)
next
  case False
  have "take (offset s) (buffer s) = payload s"
    using assms(1) False by (simp add: winv_def payload_def hdr_len_def)
  with flushBlock_later(2) [OF False assms(2)] False show ?thesis
    by (simp add: chunk_of_def Let_def del: le_bytes_numeral)
qed

lemma put_cases:
  assumes "winv s" and "put e f s v = Inr s1"
  obtains (flush) s' where "f \<or> BLOCK_BYTES < offset s + length v"
      and "flushBlock e s = Inr s'" and "s1 = s'\<lparr>buffer := v, offset := length v\<rparr>"
  | (stay) "\<not> f" and "offset s + length v \<le> BLOCK_BYTES"
      and "s1 = s\<lparr>buffer := buffer s @ v, offset := offset s + length v\<rparr>"
proof (cases "f \<or> BLOCK_BYTES < offset s + length v")
  case True
  with assms(2) obtain s' where f: "flushBlock e s = Inr s'"
    and s1: "s1 = s'\<lparr>buffer := memcpy_at (buffer s') (offset s') v,
                      offset := offset s' + length v\<rparr>"
    by (cases "flushBlock e s") (auto simp: put_def)
  from flushBlock_winv [OF assms(1) f] have "buffer s' = []" "offset s' = 0"
    by simp_all
  with s1 have "s1 = s'\<lparr>buffer := v, offset := length v\<rparr>"
    by (simp add: memcpy_at_def)
  with True f show ?thesis by (rule flush)
next
  case False
  with assms have "s1 = s\<lparr>buffer := buffer s @ v, offset := offset s + length v\<rparr>"
    by (auto simp: put_def winv_def)
  with False show ?thesis by (intro stay) auto
qed

lemma put_winv:
  assumes "winv s" and "put e f s v = Inr s1" and "length v \<le> BLOCK_BYTES"
  shows "winv s1"
  using assms(1,2)
proof (cases rule: put_cases)
  case (flush s')
  with flushBlock_winv [OF assms(1) flush(2)] assms(3) show ?thesis
    by (simp add: winv_def hdr_len_def)
next
  case stay
  with assms(1) show ?thesis
    by (auto simp: winv_def hdr_len_def)
qed

lemma wfut_base:
  assumes "winv s" and "flushBlock e s = Inr sz"
  shows "wfut e s sz (payload s) []"
proof -
  have "hdr_len s + length (payload s) \<le> BLOCK_BYTES"
    using assms(1) by (simp add: winv_def payload_def)
  with flushBlock_winv [OF assms] show ?thesis
    by (simp add: wfut_def)
qed

lemma wfut_back:
  assumes "winv s" and "valid_step (f, v)" and "put e f s v = Inr s1"
    and "wfut e s1 sz cur1 rest1"
  shows "if f \<or> BLOCK_BYTES < offset s + length v
         then wfut e s sz (payload s) (cur1 # rest1) \<and> (\<exists>suf. cur1 = v @ suf) \<and> v \<noteq> []
         else wfut e s sz cur1 rest1 \<and> (\<exists>suf. cur1 = payload s @ v @ suf)"
  using assms(1,3)
proof (cases rule: put_cases)
  case (flush s')
  note s' = flushBlock_winv [OF assms(1) flush(2)]
  have nf: "\<not> first_block s1" and ls: "lz4Stream s1 = lz4Stream s @ [payload s]"
    and st: "stream s1 = stream s @ chunk_of e s (payload s)" and p1: "payload s1 = v"
    using flush(3) s' by (simp_all add: payload_def hdr_len_def)
  have vne: "v \<noteq> []"
    using flush(1) assms(1,2) by (auto simp: valid_step_def winv_def)
  from assms(4) obtain suf where cur1: "cur1 = v @ suf"
    by (auto simp: wfut_def p1)
  have c1: "cur1 \<noteq> []" using cur1 vne by simp
  have l1: "length cur1 \<le> BLOCK_BYTES"
    using assms(4) nf by (simp add: wfut_def hdr_len_def)
  have ch: "chunk_of e s1 cur1 @ frames e (lz4Stream s1 @ [cur1]) rest1 =
            frames e (lz4Stream s @ [payload s]) (cur1 # rest1)"
    using nf ls by (simp add: chunk_of_def Let_def del: le_bytes_numeral)
  have "wfut e s sz (payload s) (cur1 # rest1)"
    using assms(4) assms(1) c1 l1 ls st ch
    by (simp add: wfut_def winv_def payload_def del: frames.simps)
  with flush(1) cur1 vne show ?thesis by auto
next
  case stay
  have fb: "first_block s1 = first_block s" and ls: "lz4Stream s1 = lz4Stream s"
    and st: "stream s1 = stream s" and hl: "hdr_len s1 = hdr_len s"
    using stay(3) by (simp_all add: hdr_len_def)
  have p1: "payload s1 = payload s @ v"
    using stay(3) assms(1) hl by (simp add: payload_def winv_def)
  have t64: "first_block s \<Longrightarrow> take 64 (buffer s1) = take 64 (buffer s)"
    using stay(3) assms(1) by (simp add: winv_def hdr_len_def headSz_def)
  have ch: "chunk_of e s1 cur1 = chunk_of e s cur1"
    using fb ls t64 by (simp add: chunk_of_def Let_def del: le_bytes_numeral)
  from assms(4) have "wfut e s sz cur1 rest1"
    by (auto simp: wfut_def p1 ls st hl ch)
  moreover from assms(4) have "\<exists>suf. cur1 = payload s @ v @ suf"
    by (auto simp: wfut_def p1)
  ultimately show ?thesis using stay(1,2) by auto
qed

lemma wfut_exists_steps:
  "winv s \<Longrightarrow> list_all valid_step steps \<Longrightarrow> puts e s steps = Inr sf \<Longrightarrow>
   flushBlock e sf = Inr sz \<Longrightarrow> \<exists>cur rest. wfut e s sz cur rest"
proof (induction steps arbitrary: s)
  case Nil
  then show ?case using wfut_base [of s e sz] by auto
next
  case (Cons x steps)
  obtain f v where x: "x = (f, v)" by (cases x)
  from Cons.prems(3) x obtain s1 where p: "put e f s v = Inr s1"
    and r: "puts e s1 steps = Inr sf"
    by (cases "put e f s v") auto
  have vs: "valid_step (f, v)" and vr: "list_all valid_step steps"
    using Cons.prems(2) x by simp_all
  have w1: "winv s1"
    using put_winv [OF Cons.prems(1) p] vs by (simp add: valid_step_def)
  from Cons.IH [OF w1 vr r Cons.prems(4)] obtain cur1 rest1 where "wfut e s1 sz cur1 rest1"
    by blast
  from wfut_back [OF Cons.prems(1) vs p this] show ?case
    by (auto split: if_splits)
qed

lemma will_close_wfut:
  assumes "winv s" and "will_close e s sz"
  shows "\<exists>cur rest. wfut e s sz cur rest"
  using assms wfut_exists_steps unfolding will_close_def by blast

lemma wfut_unique:
  assumes "wfut e s sz cur rest" and "wfut e s sz cur' rest'"
  shows "cur' = cur \<and> rest' = rest"
  using assms by (simp add: wfut_def)

lemma will_close_put:
  assumes "valid_step (f, v)" and "put e f s v = Inr s1" and "will_close e s1 sz"
  shows "will_close e s sz"
proof -
  from assms(3) obtain steps sf where "list_all valid_step steps"
    and "puts e s1 steps = Inr sf" and "flushBlock e sf = Inr sz"
    unfolding will_close_def by blast
  with assms(1,2) have "list_all valid_step ((f, v) # steps) \<and>
    puts e s ((f, v) # steps) = Inr sf \<and> flushBlock e sf = Inr sz"
    by simp
  then show ?thesis unfolding will_close_def by blast
qed

section \<open>One read against one write\<close>

lemma fread_prefix:
  assumes "drop (pos f) (data f) = a @ b" and "a \<noteq> []"
  shows "fread f (length a) = Some (a, f\<lparr>pos := pos f + length a\<rparr>)"
    and "drop (pos f + length a) (data f) = b"
proof -
  have len: "length (drop (pos f) (data f)) = length a + length b"
    using assms(1) by simp
  moreover have "0 < length a"
    using assms(2) by simp
  ultimately have le: "pos f + length a \<le> length (data f)"
    by (simp only: length_drop)
  have tk: "take (length a) (drop (pos f) (data f)) = a"
    using assms(1) by simp
  from le tk assms(2) show "fread f (length a) = Some (a, f\<lparr>pos := pos f + length a\<rparr>)"
    by (simp add: fread_def)
  have "drop (length a) (drop (pos f) (data f)) = b"
    using assms(1) by simp
  then show "drop (pos f + length a) (data f) = b"
    by (simp add: add.commute)
qed

lemma le_nat_size_t: "n < 2 ^ 64 \<Longrightarrow> le_nat (le_bytes 8 n) = n"
  by (simp add: le_nat_le_bytes del: le_bytes_numeral)

lemma codec_okD:
  fixes ctx :: "bytes list"
  assumes "codec_ok e" and "src \<noteq> []" and "length src \<le> BLOCK_BYTES"
  defines "c \<equiv> LZ4_compress_HC_continue e ctx src (LZ4_COMPRESSBOUND e BLOCK_BYTES)"
  shows "c \<noteq> []" and "length c < LZ4_COMPRESSBOUND e BLOCK_BYTES" and "length c < 2 ^ 64"
    and "LZ4_decompress_safe_continue e ctx c BLOCK_BYTES = Some src"
  using assms(1,2,3) unfolding codec_ok_def c_def Let_def by blast+

text \<open>The reader takes the next block from a stream that starts with its frame.\<close>

lemma preparePtr_advance:
  assumes ok: "codec_ok e" and bb: "buffer_blocks r" and over: "block_sz r < ptr r + n"
    and str: "drop (pos (in_stream r)) (data (in_stream r)) =
              frames e (lz4StreamDecode r) (b # bs) @ tail"
    and b: "b \<noteq> []" "length b \<le> BLOCK_BYTES"
  shows "\<exists>f. preparePtr e r n =
           Inr (r\<lparr>in_stream := f, in_buffer := b, block_sz := length b,
                  lz4StreamDecode := lz4StreamDecode r @ [b], ptr := 0\<rparr>) \<and>
         drop (pos f) (data f) = frames e (lz4StreamDecode r @ [b]) bs @ tail"
proof -
  define c where "c = LZ4_compress_HC_continue e (lz4StreamDecode r) b
                        (LZ4_COMPRESSBOUND e BLOCK_BYTES)"
  note cd = codec_okD [OF ok b, of "lz4StreamDecode r", folded c_def]
  let ?f0 = "in_stream r"
  let ?rest = "frames e (lz4StreamDecode r @ [b]) bs @ tail"
  have s0: "drop (pos ?f0) (data ?f0) = le_bytes 8 (length c) @ (c @ ?rest)"
    using str by (simp add: c_def Let_def del: le_bytes_numeral)
  have ne: "le_bytes 8 (length c) \<noteq> []"
    by simp
  define f1 where "f1 = ?f0\<lparr>pos := pos ?f0 + 8\<rparr>"
  have r1: "fread ?f0 8 = Some (le_bytes 8 (length c), f1)"
    and d1: "drop (pos f1) (data f1) = c @ ?rest"
    using fread_prefix [OF s0 ne] by (simp_all add: f1_def del: le_bytes_numeral)
  define f2 where "f2 = f1\<lparr>pos := pos f1 + length c\<rparr>"
  have r2: "fread f1 (length c) = Some (c, f2)"
    and d2: "drop (pos f2) (data f2) = ?rest"
    using fread_prefix [OF d1 cd(1)] by (simp_all add: f2_def)
  have sz: "le_nat (le_bytes 8 (length c)) = length c"
    using cd(3) by (rule le_nat_size_t)
  have pos: "0 < length c"
    using cd(1) by simp
  have lb: "loadBlock e (r\<lparr>in_stream := f1\<rparr>) [] (length c) =
            Inr (r\<lparr>in_stream := f2, in_buffer := b, block_sz := length b,
                   lz4StreamDecode := lz4StreamDecode r @ [b]\<rparr>)"
    using cd(2,4) bb r2 b(1) by (simp add: loadBlock_def c_def)
  have "preparePtr e r n =
           Inr (r\<lparr>in_stream := f2, in_buffer := b, block_sz := length b,
                  lz4StreamDecode := lz4StreamDecode r @ [b], ptr := 0\<rparr>)"
    using over r1 sz pos lb by (simp add: preparePtr_def Let_def del: le_bytes_numeral)
  with d2 show ?thesis by blast
qed

lemma load_step:
  assumes ok: "codec_ok e" and w: "winv s" and vs: "valid_step (f, v)"
    and p: "put e f s v = Inr s1"
    and w1: "wfut e s1 sz cur1 rest1" and w0: "wfut e s sz cur rest"
    and rs: "rsync e s r cur rest tail"
  shows "\<exists>r1. load e r (length v) = Inr (v, r1) \<and> rsync e s1 r1 cur1 rest1 tail \<and>
              (if f \<or> BLOCK_BYTES < offset s + length v
               then ptr r1 = length v \<and> in_buffer r1 = cur1 \<and>
                    lz4StreamDecode r1 = lz4StreamDecode r @ [cur1]
               else r1 = r\<lparr>ptr := ptr r + length v\<rparr>)"
proof (cases "f \<or> BLOCK_BYTES < offset s + length v")
  case True
  with wfut_back [OF w vs p w1] have wb: "wfut e s sz (payload s) (cur1 # rest1)"
    and suf: "\<exists>suf. cur1 = v @ suf" and vne: "v \<noteq> []"
    by simp_all
  from wfut_unique [OF wb w0] have cur: "cur = payload s" and rest: "rest = cur1 # rest1"
    by simp_all
  from w p True obtain s' where fl: "flushBlock e s = Inr s'"
    and s1: "s1 = s'\<lparr>buffer := v, offset := length v\<rparr>"
    by (cases rule: put_cases) auto
  note s' = flushBlock_winv [OF w fl]
  have nf: "\<not> first_block s1" and ls: "lz4Stream s1 = lz4Stream s @ [cur]"
    and of1: "offset s1 = length v" and hl1: "hdr_len s1 = 0"
    using s1 s' cur by (simp_all add: hdr_len_def)
  have bs: "block_sz r = offset s"
    using rs w cur by (simp add: rsync_def winv_def payload_def)
  have over: "block_sz r < ptr r + length v"
    using rs bs vne by (simp add: rsync_def)
  have c1: "cur1 \<noteq> []" "length cur1 \<le> BLOCK_BYTES"
    using suf vne w1 hl1 by (auto simp: wfut_def)
  have str: "drop (pos (in_stream r)) (data (in_stream r)) =
              frames e (lz4StreamDecode r) (cur1 # rest1) @ tail"
    using rs rest by (simp add: rsync_def del: frames.simps)
  have bb: "buffer_blocks r"
    using rs by (simp add: rsync_def)
  from preparePtr_advance [OF ok bb over str c1] obtain f2 where
    pp: "preparePtr e r (length v) =
           Inr (r\<lparr>in_stream := f2, in_buffer := cur1, block_sz := length cur1,
                  lz4StreamDecode := lz4StreamDecode r @ [cur1], ptr := 0\<rparr>)"
    and d2: "drop (pos f2) (data f2) = frames e (lz4StreamDecode r @ [cur1]) rest1 @ tail"
    by blast
  define r1 where "r1 = r\<lparr>in_stream := f2, in_buffer := cur1, block_sz := length cur1,
                  lz4StreamDecode := lz4StreamDecode r @ [cur1], ptr := length v\<rparr>"
  from suf have tk: "take (length v) cur1 = v"
    by auto
  have ld: "load e r (length v) = Inr (v, r1)"
    using pp tk by (simp add: load_def r1_def)
  have dr: "lz4StreamDecode r = lz4Stream s @ [cur]"
    using rs by (simp add: rsync_def)
  have "rsync e s1 r1 cur1 rest1 tail"
    using bb d2 dr ls of1 hl1 by (simp add: rsync_def r1_def)
  with ld True show ?thesis
    by (auto simp: r1_def)
next
  case False
  with wfut_back [OF w vs p w1] have wb: "wfut e s sz cur1 rest1"
    and suf: "\<exists>suf. cur1 = payload s @ v @ suf"
    by simp_all
  from wfut_unique [OF wb w0] have cur: "cur = cur1" and rest: "rest = rest1"
    by simp_all
  from w p False have s1: "s1 = s\<lparr>buffer := buffer s @ v, offset := offset s + length v\<rparr>"
    by (cases rule: put_cases) auto
  from suf obtain sf where cs: "cur1 = payload s @ v @ sf" ..
  have lp: "hdr_len s + length (payload s) = offset s"
    using w by (simp add: winv_def payload_def)
  from rs obtain hp where hp: "length hp = hdr_len s" "in_buffer r = hp @ cur"
    by (auto simp: rsync_def)
  have fit: "ptr r + length v \<le> block_sz r"
    using rs cur cs lp by (simp add: rsync_def)
  have "drop (ptr r) (in_buffer r) = v @ sf"
    using rs hp cur cs lp by (simp add: rsync_def)
  then have tk: "take (length v) (drop (ptr r) (in_buffer r)) = v"
    by simp
  have ld: "load e r (length v) = Inr (v, r\<lparr>ptr := ptr r + length v\<rparr>)"
    using fit tk by (simp add: load_def preparePtr_def)
  have "rsync e s1 (r\<lparr>ptr := ptr r + length v\<rparr>) cur1 rest1 tail"
    using rs cur rest s1 by (simp add: rsync_def hdr_len_def)
  with ld False show ?thesis
    by auto
qed

lemma flushBlock_resets:
  assumes "flushBlock e s = Inr s'"
  shows "offset s' = 0" and "buffer s' = []"
  using assms by (auto simp: flushBlock_def Let_def split: if_splits)

lemma save_put:
  "save e s v = (if \<not> length v < BLOCK_BYTES then Inl AssertSizeof else put e False s v)"
  by (simp add: save_def put_def)

lemma save_binary_unfold:
  "save_binary e s src =
     (if length src > BLOCK_BYTES
      then (case put e True s (take BLOCK_BYTES src) of
              Inl err \<Rightarrow> Inl err
            | Inr s1 \<Rightarrow> save_binary e s1 (drop BLOCK_BYTES src))
      else put e False s src)"
proof (cases "length src > BLOCK_BYTES")
  case False
  then show ?thesis
    by (simp add: save_binary_def save_binary_chunks.simps [of e s src] put_def)
next
  case True
  show ?thesis
  proof (cases "flushBlock e s")
    case (Inl err)
    with True show ?thesis
      by (simp add: save_binary_def save_binary_chunks.simps [of e s src] put_def)
  next
    case (Inr s')
    have "memcpy_at (buffer s') (offset s') (take BLOCK_BYTES src) =
          memcpy_at (buffer s') 0 (take BLOCK_BYTES src)"
      using flushBlock_resets [OF Inr] by simp
    with True Inr show ?thesis
      by (simp add: save_binary_def save_binary_chunks.simps [of e s src] put_def)
  qed
qed

lemma save_binary_puts: "save_binary e s src = puts e s (binary_steps src)"
proof (induction src arbitrary: s rule: binary_steps.induct)
  case (1 src)
  show ?case
  proof (cases "length src > BLOCK_BYTES")
    case False
    then show ?thesis
      by (cases "put e False s src")
         (simp_all add: save_binary_unfold [of e s src] binary_steps.simps [of src])
  next
    case True
    show ?thesis
    proof (cases "put e True s (take BLOCK_BYTES src)")
      case (Inl err)
      with True show ?thesis
        by (simp add: save_binary_unfold [of e s src] binary_steps.simps [of src])
    next
      case (Inr s1)
      with True "1.IH" [OF True, of s1] show ?thesis
        by (simp add: save_binary_unfold [of e s src] binary_steps.simps [of src])
    qed
  qed
qed

lemma binary_steps_valid: "list_all valid_step (binary_steps src)"
proof (induction src rule: binary_steps.induct)
  case (1 src)
  show ?case
  proof (cases "length src > BLOCK_BYTES")
    case False
    then show ?thesis
      by (simp add: binary_steps.simps [of src] valid_step_def)
  next
    case True
    then have "take BLOCK_BYTES src \<noteq> []"
      by (auto simp: BLOCK_BYTES_def)
    with True "1.IH" show ?thesis
      by (simp add: binary_steps.simps [of src] valid_step_def)
  qed
qed

lemma binary_steps_concat: "concat (map snd (binary_steps src)) = src"
proof (induction src rule: binary_steps.induct)
  case (1 src)
  then show ?case
    by (cases "length src > BLOCK_BYTES") (simp_all add: binary_steps.simps [of src])
qed

lemma load_binary_chunks_acc:
  "load_binary_chunks e r n dst =
     (case load_binary_chunks e r n [] of
        Inl err \<Rightarrow> Inl err
      | Inr (r1, m, x) \<Rightarrow> Inr (r1, m, dst @ x))"
proof (induction n arbitrary: r dst rule: less_induct)
  case (less n)
  show ?case
  proof (cases "n > BLOCK_BYTES")
    case False
    then show ?thesis
      by (simp add: load_binary_chunks.simps [of e r n])
  next
    case True
    show ?thesis
    proof (cases "preparePtr e r BLOCK_BYTES")
      case (Inl err)
      with True show ?thesis
        by (simp add: load_binary_chunks.simps [of e r n])
    next
      case (Inr r1)
      let ?r2 = "r1\<lparr>ptr := ptr r1 + BLOCK_BYTES\<rparr>"
      let ?b = "take BLOCK_BYTES (drop (ptr r1) (in_buffer r1))"
      let ?X = "load_binary_chunks e ?r2 (n - BLOCK_BYTES)"
      have lt: "n - BLOCK_BYTES < n"
        using True by (simp add: BLOCK_BYTES_def)
      have a: "load_binary_chunks e r n dst = ?X (dst @ ?b)"
        using True Inr by (simp add: load_binary_chunks.simps [of e r n dst])
      have b: "load_binary_chunks e r n [] = ?X ?b"
        using True Inr by (simp add: load_binary_chunks.simps [of e r n "[]"])
      have c: "?X (dst @ ?b) =
            (case ?X [] of Inl err \<Rightarrow> Inl err
             | Inr (r1, m, x) \<Rightarrow> Inr (r1, m, (dst @ ?b) @ x))"
        by (rule less.IH [OF lt])
      have d: "?X ?b =
            (case ?X [] of Inl err \<Rightarrow> Inl err | Inr (r1, m, x) \<Rightarrow> Inr (r1, m, ?b @ x))"
        by (rule less.IH [OF lt])
      show ?thesis
        unfolding a b by (subst c, subst d) (simp split: sum.splits prod.splits)
    qed
  qed
qed

lemma load_binary_unfold:
  "load_binary e r n =
     (if n > BLOCK_BYTES
      then (case load e r BLOCK_BYTES of
              Inl err \<Rightarrow> Inl err
            | Inr (b, r1) \<Rightarrow>
                (case load_binary e r1 (n - BLOCK_BYTES) of
                   Inl err \<Rightarrow> Inl err
                 | Inr (bs, r2) \<Rightarrow> Inr (b @ bs, r2)))
      else load e r n)"
proof (cases "n > BLOCK_BYTES")
  case False
  then show ?thesis
    by (simp add: load_binary_def load_binary_chunks.simps [of e r n] load_def
             split: sum.splits)
next
  case True
  show ?thesis
  proof (cases "preparePtr e r BLOCK_BYTES")
    case (Inl err)
    with True show ?thesis
      by (simp add: load_binary_def load_binary_chunks.simps [of e r n] load_def)
  next
    case (Inr r1)
    let ?r2 = "r1\<lparr>ptr := ptr r1 + BLOCK_BYTES\<rparr>"
    let ?b = "take BLOCK_BYTES (drop (ptr r1) (in_buffer r1))"
    have b: "load_binary_chunks e r n [] = load_binary_chunks e ?r2 (n - BLOCK_BYTES) ?b"
      using True Inr by (simp add: load_binary_chunks.simps [of e r n "[]"])
    have l: "load e r BLOCK_BYTES = Inr (?b, ?r2)"
      using Inr by (simp add: load_def)
    show ?thesis
      using True
      by (simp add: load_binary_def [of e r n] b l
                    load_binary_chunks_acc [of e ?r2 "n - BLOCK_BYTES" ?b]
                    load_binary_def [of e ?r2 "n - BLOCK_BYTES"]
               split: sum.splits prod.splits)
  qed
qed

lemma will_close_puts:
  "list_all valid_step steps \<Longrightarrow> puts e s steps = Inr s1 \<Longrightarrow> will_close e s1 sz \<Longrightarrow>
   will_close e s sz"
proof (induction steps arbitrary: s)
  case Nil
  then show ?case by simp
next
  case (Cons x steps)
  obtain f v where x: "x = (f, v)" by (cases x)
  from Cons.prems(2) x obtain s2 where p: "put e f s v = Inr s2"
    and r: "puts e s2 steps = Inr s1"
    by (cases "put e f s v") auto
  have vs: "valid_step (f, v)" and vr: "list_all valid_step steps"
    using Cons.prems(1) x by simp_all
  from Cons.IH [OF vr r Cons.prems(3)] have "will_close e s2 sz" .
  from will_close_put [OF vs p this] show ?case .
qed

lemma put_in_step:
  assumes ok: "codec_ok e" and w: "winv s" and vs: "valid_step (f, v)"
    and p: "put e f s v = Inr s1" and wc: "will_close e s1 sz"
    and st: "in_step e s r sz tail"
  shows "\<exists>r1. load e r (length v) = Inr (v, r1) \<and> in_step e s1 r1 sz tail \<and>
              (if f \<or> BLOCK_BYTES < offset s + length v
               then ptr r1 = length v \<and> take (length v) (in_buffer r1) = v \<and>
                    lz4StreamDecode r1 = lz4StreamDecode r @ [in_buffer r1]
               else r1 = r\<lparr>ptr := ptr r + length v\<rparr>)"
proof -
  have w1: "winv s1"
    using put_winv [OF w p] vs by (simp add: valid_step_def)
  from will_close_wfut [OF w1 wc] obtain cur1 rest1 where f1: "wfut e s1 sz cur1 rest1"
    by blast
  from st obtain cur rest where f0: "wfut e s sz cur rest" and rs: "rsync e s r cur rest tail"
    unfolding in_step_def by blast
  from load_step [OF ok w vs p f1 f0 rs] obtain r1 where
    ld: "load e r (length v) = Inr (v, r1)" and rs1: "rsync e s1 r1 cur1 rest1 tail"
    and d: "if f \<or> BLOCK_BYTES < offset s + length v
            then ptr r1 = length v \<and> in_buffer r1 = cur1 \<and>
                 lz4StreamDecode r1 = lz4StreamDecode r @ [cur1]
            else r1 = r\<lparr>ptr := ptr r + length v\<rparr>"
    by blast
  have i1: "in_step e s1 r1 sz tail"
    using f1 rs1 unfolding in_step_def by blast
  show ?thesis
  proof (cases "f \<or> BLOCK_BYTES < offset s + length v")
    case True
    with wfut_back [OF w vs p f1] obtain suf where "cur1 = v @ suf"
      by auto
    with d True have "ptr r1 = length v \<and> take (length v) (in_buffer r1) = v \<and>
                    lz4StreamDecode r1 = lz4StreamDecode r @ [in_buffer r1]"
      by simp
    with ld i1 True show ?thesis by auto
  next
    case False
    with ld i1 d show ?thesis by auto
  qed
qed

lemma save_winv:
  assumes "winv s" and "save e s v = Inr s1"
  shows "winv s1"
  using assms put_winv [of s e False v s1]
  by (auto simp: save_put split: if_splits)

lemma puts_winv:
  "winv s \<Longrightarrow> list_all valid_step steps \<Longrightarrow> puts e s steps = Inr s1 \<Longrightarrow> winv s1"
proof (induction steps arbitrary: s)
  case Nil
  then show ?case by simp
next
  case (Cons x steps)
  obtain f v where x: "x = (f, v)" by (cases x)
  from Cons.prems(3) x obtain s2 where p: "put e f s v = Inr s2"
    and r: "puts e s2 steps = Inr s1"
    by (cases "put e f s v") auto
  have "winv s2"
    using put_winv [OF Cons.prems(1) p] Cons.prems(2) x by (simp add: valid_step_def)
  from Cons.IH [OF this _ r] Cons.prems(2) show ?case by simp
qed

lemma save_binary_winv:
  assumes "winv s" and "save_binary e s v = Inr s1"
  shows "winv s1"
  using puts_winv [OF assms(1) binary_steps_valid] assms(2) by (simp add: save_binary_puts)

lemma save_binary_sync:
  "codec_ok e \<Longrightarrow> winv s \<Longrightarrow> save_binary e s v = Inr s1 \<Longrightarrow> will_close e s1 sz \<Longrightarrow>
   in_step e s r sz tail \<Longrightarrow>
   \<exists>r1. load_binary e r (length v) = Inr (v, r1) \<and> in_step e s1 r1 sz tail"
proof (induction v arbitrary: s r rule: binary_steps.induct)
  case (1 src)
  show ?case
  proof (cases "length src > BLOCK_BYTES")
    case False
    with "1.prems"(3) have p: "put e False s src = Inr s1"
      by (simp add: save_binary_unfold [of e s src])
    have vs: "valid_step (False, src)"
      using False by (simp add: valid_step_def)
    from put_in_step [OF "1.prems"(1,2) vs p "1.prems"(4,5)] False show ?thesis
      by (auto simp: load_binary_unfold [of e r "length src"])
  next
    case True
    let ?c = "take BLOCK_BYTES src"
    from True "1.prems"(3) obtain s2 where p: "put e True s ?c = Inr s2"
      and rest: "save_binary e s2 (drop BLOCK_BYTES src) = Inr s1"
      by (cases "put e True s ?c") (auto simp: save_binary_unfold [of e s src])
    have lc: "length ?c = BLOCK_BYTES"
      using True by simp
    have vs: "valid_step (True, ?c)"
      using lc by (auto simp: valid_step_def BLOCK_BYTES_def)
    have w2: "winv s2"
      using put_winv [OF "1.prems"(2) p] lc by simp
    have "puts e s2 (binary_steps (drop BLOCK_BYTES src)) = Inr s1"
      using rest by (simp add: save_binary_puts)
    from will_close_puts [OF binary_steps_valid this "1.prems"(4)]
    have wc2: "will_close e s2 sz" .
    from put_in_step [OF "1.prems"(1,2) vs p wc2 "1.prems"(5)] lc obtain r2 where
      l2: "load e r BLOCK_BYTES = Inr (?c, r2)" and i2: "in_step e s2 r2 sz tail"
      by auto
    from "1.IH" [OF True "1.prems"(1) w2 rest "1.prems"(4) i2] obtain r1 where
      l1: "load_binary e r2 (length (drop BLOCK_BYTES src)) = Inr (drop BLOCK_BYTES src, r1)"
      and i1: "in_step e s1 r1 sz tail"
      by blast
    have "load_binary e r (length src) = Inr (?c @ drop BLOCK_BYTES src, r1)"
      using True l2 l1 by (simp add: load_binary_unfold [of e r "length src"])
    with i1 show ?thesis by simp
  qed
qed

lemma save_sync:
  assumes "codec_ok e" and "winv s" and "save e s v = Inr s1" and "will_close e s1 sz"
    and "in_step e s r sz tail"
  shows "\<exists>r1. load e r (length v) = Inr (v, r1) \<and> in_step e s1 r1 sz tail \<and>
              (if offset s + length v \<le> BLOCK_BYTES
               then r1 = r\<lparr>ptr := ptr r + length v\<rparr>
               else ptr r1 = length v \<and> take (length v) (in_buffer r1) = v \<and>
                    lz4StreamDecode r1 = lz4StreamDecode r @ [in_buffer r1])"
proof -
  from assms(3) have lv: "length v < BLOCK_BYTES" and p: "put e False s v = Inr s1"
    by (auto simp: save_put split: if_splits)
  have vs: "valid_step (False, v)"
    using lv by (simp add: valid_step_def)
  from put_in_step [OF assms(1,2) vs p assms(4,5)] show ?thesis
    by (auto simp: not_le)
qed

text \<open>Where the writer places the bytes.\<close>

lemma put_placing:
  assumes "winv s" and "put e f s v = Inr s1"
  shows "if f \<or> BLOCK_BYTES < offset s + length v
         then lz4Stream s1 = lz4Stream s @ [payload s] \<and> buffer s1 = v \<and> \<not> first_block s1
         else lz4Stream s1 = lz4Stream s \<and> buffer s1 = buffer s @ v"
  using assms
proof (cases rule: put_cases)
  case (flush s')
  with flushBlock_winv [OF assms(1) flush(2)] show ?thesis by simp
next
  case stay
  then show ?thesis by simp
qed

lemma save_binary_large:
  "winv s \<Longrightarrow> save_binary e s v = Inr s1 \<Longrightarrow> BLOCK_BYTES < length v \<Longrightarrow>
   lz4Stream s1 = lz4Stream s @ payload s # butlast (pieces v) \<and> buffer s1 = last (pieces v)"
proof (induction v arbitrary: s rule: binary_steps.induct)
  case (1 src)
  let ?c = "take BLOCK_BYTES src"
  let ?d = "drop BLOCK_BYTES src"
  note big = "1.prems"(3)
  from big "1.prems"(2) obtain s2 where p: "put e True s ?c = Inr s2"
    and rest: "save_binary e s2 ?d = Inr s1"
    by (cases "put e True s ?c") (auto simp: save_binary_unfold [of e s src])
  have lc: "length ?c = BLOCK_BYTES"
    using big by simp
  have w2: "winv s2"
    using put_winv [OF "1.prems"(1) p] lc by simp
  from put_placing [OF "1.prems"(1) p]
  have s2: "lz4Stream s2 = lz4Stream s @ [payload s]" "buffer s2 = ?c" "\<not> first_block s2"
    by simp_all
  have p2: "payload s2 = ?c"
    using s2 by (simp add: payload_def hdr_len_def)
  have o2: "offset s2 = BLOCK_BYTES"
    using w2 s2 lc by (simp add: winv_def)
  have ps: "pieces src = ?c # pieces ?d"
    using big by (simp add: pieces_def binary_steps.simps [of src])
  have ne: "pieces ?d \<noteq> []"
    by (simp add: pieces_def binary_steps.simps [of ?d])
  show ?case
  proof (cases "BLOCK_BYTES < length ?d")
    case True
    from "1.IH" [OF big w2 rest True] s2 p2 ps ne show ?thesis
      by simp
  next
    case False
    have dne: "?d \<noteq> []"
      using big by simp
    from False rest have p3: "put e False s2 ?d = Inr s1"
      by (simp add: save_binary_unfold [of e s2 ?d])
    have "BLOCK_BYTES < offset s2 + length ?d"
      using o2 dne by simp
    with put_placing [OF w2 p3]
    have "lz4Stream s1 = lz4Stream s2 @ [payload s2] \<and> buffer s1 = ?d"
      by simp
    moreover have "pieces ?d = [?d]"
      using False by (simp add: pieces_def binary_steps.simps [of ?d])
    ultimately show ?thesis
      using s2 p2 ps by simp
  qed
qed

lemma pieces_facts:
  "concat (pieces v) = v" "pieces v \<noteq> []"
  "\<forall>p \<in> set (butlast (pieces v)). length p = BLOCK_BYTES"
proof -
  show "concat (pieces v) = v"
    by (simp add: pieces_def binary_steps_concat)
  show "pieces v \<noteq> []"
    by (simp add: pieces_def binary_steps.simps [of v])
  show "\<forall>p \<in> set (butlast (pieces v)). length p = BLOCK_BYTES"
  proof (induction v rule: binary_steps.induct)
    case (1 src)
    show ?case
    proof (cases "BLOCK_BYTES < length src")
      case False
      then show ?thesis by (simp add: pieces_def binary_steps.simps [of src])
    next
      case True
      have "pieces (drop BLOCK_BYTES src) \<noteq> []"
        by (simp add: pieces_def binary_steps.simps [of "drop BLOCK_BYTES src"])
      with True "1.IH" [OF True] show ?thesis
        by (simp add: pieces_def binary_steps.simps [of src])
    qed
  qed
qed

section \<open>Opening the file\<close>

lemma codec_ok_store_env: "codec_ok store_env"
  by (simp add: codec_ok_def store_env_def BLOCK_BYTES_def)

lemma store_malloc [simp]: "malloc_ok store_env n"
  by (simp add: store_env_def)

lemma is_v10_patched:
  assumes "64 \<le> length head"
  shows "is_v10 (take 64 head @ xs) = is_v10 head"
  using assms by (simp add: is_v10_def nth_append)

lemma first_block_size_patched:
  assumes "64 \<le> length head" and "n < 2 ^ 64"
  shows "head_first_block_size (take 64 head @ le_bytes 8 m @ le_bytes 8 n) = n"
  using assms by (simp add: head_first_block_size_def le_nat_size_t del: le_bytes_numeral)

lemma reader_init:
  fixes e :: env and head cur tail :: bytes
  defines "c \<equiv> LZ4_compress_HC_continue e [] cur (LZ4_COMPRESSBOUND e BLOCK_BYTES)"
  defines "head' \<equiv> take 64 head @ le_bytes 8 1 @ le_bytes 8 (length c)"
  assumes ok: "codec_ok e"
    and m: "malloc_ok e headSz" "malloc_ok e (BLOCK_BYTES * 2)"
           "malloc_ok e (LZ4_COMPRESSBOUND e BLOCK_BYTES)"
    and s: "s = \<lparr>stream = [], buffer = head, offset = headSz, first_block = True,
                 lz4Stream = []\<rparr>"
    and lh: "length head = headSz" and nv: "\<not> is_v10 head"
    and wf: "wfut e s sz cur rest" and ne: "cur \<noteq> []"
  shows "\<exists>r0 r1. LoadArchive_initBlock e \<lparr>data = stream sz @ tail, pos = 0\<rparr> = Inr r0 \<and>
                 load e r0 headSz = Inr (head', r1) \<and> rsync e s r1 cur rest tail"
proof -
  have hl: "hdr_len s = headSz" and ls: "lz4Stream s = []" and fb: "first_block s"
    and bs: "buffer s = head" and os: "offset s = headSz" and ss: "stream s = []"
    using s by (simp_all add: hdr_len_def)
  have lc: "length cur \<le> BLOCK_BYTES"
    using wf hl by (simp add: wfut_def)
  note cd = codec_okD [OF ok ne lc, of "[]", folded c_def]
  have l64: "64 \<le> length head"
    using lh by (simp add: headSz_def)
  have lh': "length head' = headSz"
    using l64 by (simp add: head'_def headSz_def)
  have h'ne: "head' \<noteq> []"
    using lh' by (auto simp: headSz_def)
  let ?fr = "frames e [cur] rest @ tail"
  let ?f0 = "\<lparr>data = stream sz @ tail, pos = 0\<rparr>"
  have st: "stream sz @ tail = head' @ (c @ ?fr)"
    using wf fb ls bs ss
    by (simp add: wfut_def chunk_of_def Let_def c_def head'_def del: le_bytes_numeral)
  then have d0: "drop (pos ?f0) (data ?f0) = head' @ (c @ ?fr)"
    by simp
  define f1 where "f1 = ?f0\<lparr>pos := pos ?f0 + length head'\<rparr>"
  have r1: "fread ?f0 headSz = Some (head', f1)" and d1: "drop (pos f1) (data f1) = c @ ?fr"
    using fread_prefix [OF d0 h'ne] lh' by (simp_all add: f1_def)
  define f2 where "f2 = f1\<lparr>pos := pos f1 + length c\<rparr>"
  have r2: "fread f1 (length c) = Some (c, f2)" and d2: "drop (pos f2) (data f2) = ?fr"
    using fread_prefix [OF d1 cd(1)] by (simp_all add: f2_def)
  have nv': "\<not> is_v10 head'"
    using nv is_v10_patched [OF l64] by (simp add: head'_def)
  have fbs: "head_first_block_size head' = length c"
    unfolding head'_def by (rule first_block_size_patched [OF l64 cd(3)])
  define r0 where "r0 = \<lparr>in_stream = f2, in_buffer = head' @ cur, ptr = 0,
      block_sz = length cur + headSz, buffer_blocks = True, lz4StreamDecode = [cur]\<rparr>"
  have lb: "loadBlock e \<lparr>in_stream = f1, in_buffer = head', ptr = 0, block_sz = 0,
               buffer_blocks = True, lz4StreamDecode = []\<rparr> head' (length c) =
            Inr \<lparr>in_stream = f2, in_buffer = head' @ cur, ptr = 0, block_sz = length cur,
                 buffer_blocks = True, lz4StreamDecode = [cur]\<rparr>"
    using cd(2,4) r2 ne by (simp add: loadBlock_def)
  have init: "LoadArchive_initBlock e ?f0 = Inr r0"
    using m r1 nv' fbs lb by (simp add: LoadArchive_initBlock_def Let_def r0_def)
  define r1' where "r1' = r0\<lparr>ptr := headSz\<rparr>"
  have ld: "load e r0 headSz = Inr (head', r1')"
    using lh' by (simp add: load_def preparePtr_def r0_def r1'_def)
  have "rsync e s r1' cur rest tail"
    using lh' d2 hl ls os by (simp add: rsync_def r1'_def r0_def)
  with init ld show ?thesis by blast
qed

section \<open>Agreement on the blocks\<close>

lemma initBlock_block:
  assumes "SaveArchive_initBlock e file = Inr s0"
  shows "offset s0 = length (buffer s0)" and "offset s0 \<le> BLOCK_BYTES"
  using assms by (auto simp: SaveArchive_initBlock_def split: if_splits)

lemma flushBlock_header_behind:
  assumes "flushBlock e s = Inr s'"
  shows "hdr_len s \<le> offset s"
proof (cases "first_block s")
  case True
  from flushBlock_first(3) [OF True assms] True show ?thesis
    by (simp add: hdr_len_def)
next
  case False
  then show ?thesis by (simp add: hdr_len_def)
qed

lemma put_flush_winv:
  assumes "offset s = length (buffer s)" and "offset s \<le> BLOCK_BYTES"
    and "put e f s v = Inr s1" and "f \<or> BLOCK_BYTES < offset s + length v"
  shows "winv s"
proof -
  from assms(3,4) obtain s' where "flushBlock e s = Inr s'"
    by (cases "flushBlock e s") (auto simp: put_def)
  from flushBlock_header_behind [OF this] assms(1,2) show ?thesis
    by (simp add: winv_def)
qed

lemma put_block:
  assumes "offset s = length (buffer s)" and "offset s \<le> BLOCK_BYTES"
    and "put e f s v = Inr s1" and "length v \<le> BLOCK_BYTES"
  shows "offset s1 \<le> BLOCK_BYTES" and "offset s1 = length (buffer s1)"
    and "if f \<or> BLOCK_BYTES < offset s + length v
         then lz4Stream s1 = lz4Stream s @ [payload s] \<and> buffer s1 = v
         else lz4Stream s1 = lz4Stream s \<and> buffer s1 = buffer s @ v"
proof -
  have "offset s1 \<le> BLOCK_BYTES \<and> offset s1 = length (buffer s1) \<and>
        (if f \<or> BLOCK_BYTES < offset s + length v
         then lz4Stream s1 = lz4Stream s @ [payload s] \<and> buffer s1 = v
         else lz4Stream s1 = lz4Stream s \<and> buffer s1 = buffer s @ v)"
  proof (cases "f \<or> BLOCK_BYTES < offset s + length v")
    case True
    from put_flush_winv [OF assms(1,2,3) True] have w: "winv s" .
    from put_winv [OF w assms(3,4)] put_placing [OF w assms(3)] True show ?thesis
      by (simp add: winv_def)
  next
    case False
    with assms(3) have "s1 = s\<lparr>buffer := memcpy_at (buffer s) (offset s) v,
                                offset := offset s + length v\<rparr>"
      by (auto simp: put_def)
    with assms(1) False show ?thesis
      by simp
  qed
  then show "offset s1 \<le> BLOCK_BYTES" and "offset s1 = length (buffer s1)"
    and "if f \<or> BLOCK_BYTES < offset s + length v
         then lz4Stream s1 = lz4Stream s @ [payload s] \<and> buffer s1 = v
         else lz4Stream s1 = lz4Stream s \<and> buffer s1 = buffer s @ v"
    by simp_all
qed

lemma save_binary_block:
  assumes "offset s = length (buffer s)" and "offset s \<le> BLOCK_BYTES"
    and "save_binary e s v = Inr s1" and "BLOCK_BYTES < length v"
  shows "winv s"
proof -
  from assms(3,4) obtain s2 where "put e True s (take BLOCK_BYTES v) = Inr s2"
    by (cases "put e True s (take BLOCK_BYTES v)") (auto simp: save_binary_unfold [of e s v])
  from put_flush_winv [OF assms(1,2) this] show ?thesis
    by simp
qed

text \<open>The reader's own test decides as the writer did.\<close>

lemma reader_test:
  assumes w: "winv s" and vs: "valid_step (f, v)" and p: "put e f s v = Inr s1"
    and wc: "will_close e s1 sz" and st: "in_step e s r sz tail"
  shows "ptr r + length v \<le> block_sz r \<longleftrightarrow> \<not> (f \<or> BLOCK_BYTES < offset s + length v)"
proof -
  have w1: "winv s1"
    using put_winv [OF w p] vs by (simp add: valid_step_def)
  from will_close_wfut [OF w1 wc] obtain cur1 rest1 where f1: "wfut e s1 sz cur1 rest1"
    by blast
  from st obtain cur rest where f0: "wfut e s sz cur rest" and rs: "rsync e s r cur rest tail"
    unfolding in_step_def by blast
  have pl: "hdr_len s + length (payload s) = offset s"
    using w by (simp add: winv_def payload_def)
  have pr: "ptr r = offset s" and bs: "block_sz r = hdr_len s + length cur"
    using rs by (simp_all add: rsync_def)
  show ?thesis
  proof (cases "f \<or> BLOCK_BYTES < offset s + length v")
    case True
    with wfut_back [OF w vs p f1] have "wfut e s sz (payload s) (cur1 # rest1)" and "v \<noteq> []"
      by simp_all
    with wfut_unique [OF f0] have "cur = payload s" and "v \<noteq> []"
      by simp_all
    with pl pr bs True show ?thesis
      by (cases v) auto
  next
    case False
    with wfut_back [OF w vs p f1] obtain suf where "wfut e s sz cur1 rest1"
      and "cur1 = payload s @ v @ suf"
      by auto
    with wfut_unique [OF f0] have "cur = payload s @ v @ suf"
      by simp
    with pl pr bs False show ?thesis
      by simp
  qed
qed

text \<open>
  C9, as the code has it.  The write offset of a new archive counts the bytes of its
  active block and is at most \<open>BLOCK_BYTES\<close>, and \<open>save\<close> and \<open>save_binary\<close> keep it so.  A
  value that fits is appended to the active block; one that does not fit is preceded
  by a flush and starts the next block; so every value saved by \<open>save\<close> and every byte
  range of at most \<open>BLOCK_BYTES\<close> bytes lies in one block.  A longer byte range is cut
  into pieces of \<open>BLOCK_BYTES\<close> bytes, each a block of its own, and a last piece that
  starts a fresh block.

  For the reader, let the header be in place in the writer (\<open>winv\<close>), let the reader be
  in step with the writer on a stream the writer goes on to produce (\<open>in_step\<close>,
  \<open>will_close\<close>), and let the codec give blocks back (\<open>codec_ok\<close>).  The reader that asks
  for the bytes of a value saved by \<open>save\<close> finds that they pass the end of its block
  exactly when the writer found that they did not fit.  When they do not pass it, the
  reader stays in its block and moves its cursor; when they do, it takes the next
  block and reads from its first byte.  In both cases it gets the value, and
  afterwards the two are in step again; so is it after \<open>load_binary\<close> against
  \<open>save_binary\<close>.
\<close>

theorem chunking_agreement:
  "(\<forall>s0. SaveArchive_initBlock e out = Inr s0 \<longrightarrow>
      offset s0 = length (buffer s0) \<and> offset s0 \<le> BLOCK_BYTES) \<and>
   (offset s = length (buffer s) \<and> offset s \<le> BLOCK_BYTES \<longrightarrow>
     (\<forall>s1. save e s v = Inr s1 \<longrightarrow>
        offset s1 = length (buffer s1) \<and> offset s1 \<le> BLOCK_BYTES \<and>
        (if offset s + length v \<le> BLOCK_BYTES
         then lz4Stream s1 = lz4Stream s \<and> buffer s1 = buffer s @ v
         else lz4Stream s1 = lz4Stream s @ [payload s] \<and> buffer s1 = v) \<and>
        (codec_ok e \<and> winv s \<and> in_step e s r sz tail \<and> will_close e s1 sz \<longrightarrow>
           winv s1 \<and>
           (ptr r + length v \<le> block_sz r \<longleftrightarrow> offset s + length v \<le> BLOCK_BYTES) \<and>
           (\<exists>r1. load e r (length v) = Inr (v, r1) \<and> in_step e s1 r1 sz tail \<and>
                 (if ptr r + length v \<le> block_sz r
                  then r1 = r\<lparr>ptr := ptr r + length v\<rparr>
                  else ptr r1 = length v \<and> take (length v) (in_buffer r1) = v \<and>
                       lz4StreamDecode r1 = lz4StreamDecode r @ [in_buffer r1])))) \<and>
     (\<forall>s1. save_binary e s v = Inr s1 \<longrightarrow>
        offset s1 = length (buffer s1) \<and> offset s1 \<le> BLOCK_BYTES \<and>
        (if length v \<le> BLOCK_BYTES
         then if offset s + length v \<le> BLOCK_BYTES
              then lz4Stream s1 = lz4Stream s \<and> buffer s1 = buffer s @ v
              else lz4Stream s1 = lz4Stream s @ [payload s] \<and> buffer s1 = v
         else lz4Stream s1 = lz4Stream s @ payload s # butlast (pieces v) \<and>
              buffer s1 = last (pieces v) \<and> concat (pieces v) = v \<and>
              (\<forall>p \<in> set (butlast (pieces v)). length p = BLOCK_BYTES)) \<and>
        (codec_ok e \<and> winv s \<and> in_step e s r sz tail \<and> will_close e s1 sz \<longrightarrow>
           winv s1 \<and>
           (\<exists>r1. load_binary e r (length v) = Inr (v, r1) \<and> in_step e s1 r1 sz tail))))"
proof (intro conjI allI impI; (elim conjE)?)
  fix s0 assume "SaveArchive_initBlock e out = Inr s0"
  from initBlock_block [OF this]
  show "offset s0 = length (buffer s0)" and "offset s0 \<le> BLOCK_BYTES" .
next
  fix s1
  assume b: "offset s = length (buffer s)" "offset s \<le> BLOCK_BYTES"
    and sv: "save e s v = Inr s1"
  from sv have lv: "length v < BLOCK_BYTES" and p: "put e False s v = Inr s1"
    by (auto simp: save_put split: if_splits)
  from lv have lv': "length v \<le> BLOCK_BYTES" by simp
  from put_block [OF b p lv']
  show "offset s1 = length (buffer s1)" and "offset s1 \<le> BLOCK_BYTES"
    and "if offset s + length v \<le> BLOCK_BYTES
         then lz4Stream s1 = lz4Stream s \<and> buffer s1 = buffer s @ v
         else lz4Stream s1 = lz4Stream s @ [payload s] \<and> buffer s1 = v"
    by (auto simp: not_le split: if_splits)
  assume ok: "codec_ok e" and w: "winv s" and st: "in_step e s r sz tail"
    and wc: "will_close e s1 sz"
  have vs: "valid_step (False, v)"
    using lv by (simp add: valid_step_def)
  from save_winv [OF w sv] show "winv s1" .
  from reader_test [OF w vs p wc st]
  show t: "ptr r + length v \<le> block_sz r \<longleftrightarrow> offset s + length v \<le> BLOCK_BYTES"
    by (simp add: not_less)
  from save_sync [OF ok w sv wc st] t
  show "\<exists>r1. load e r (length v) = Inr (v, r1) \<and> in_step e s1 r1 sz tail \<and>
             (if ptr r + length v \<le> block_sz r
              then r1 = r\<lparr>ptr := ptr r + length v\<rparr>
              else ptr r1 = length v \<and> take (length v) (in_buffer r1) = v \<and>
                   lz4StreamDecode r1 = lz4StreamDecode r @ [in_buffer r1])"
    by simp
next
  fix s1
  assume b: "offset s = length (buffer s)" "offset s \<le> BLOCK_BYTES"
    and sb: "save_binary e s v = Inr s1"
  have "offset s1 = length (buffer s1) \<and> offset s1 \<le> BLOCK_BYTES \<and>
        (if length v \<le> BLOCK_BYTES
         then if offset s + length v \<le> BLOCK_BYTES
              then lz4Stream s1 = lz4Stream s \<and> buffer s1 = buffer s @ v
              else lz4Stream s1 = lz4Stream s @ [payload s] \<and> buffer s1 = v
         else lz4Stream s1 = lz4Stream s @ payload s # butlast (pieces v) \<and>
              buffer s1 = last (pieces v) \<and> concat (pieces v) = v \<and>
              (\<forall>p \<in> set (butlast (pieces v)). length p = BLOCK_BYTES))"
  proof (cases "length v \<le> BLOCK_BYTES")
    case True
    with sb have p: "put e False s v = Inr s1"
      by (simp add: save_binary_unfold [of e s v])
    from put_block [OF b p True] True show ?thesis
      by (auto simp: not_le split: if_splits)
  next
    case False
    then have big: "BLOCK_BYTES < length v" by simp
    from save_binary_block [OF b sb big] have w: "winv s" .
    from save_binary_winv [OF w sb] save_binary_large [OF w sb big]
         pieces_facts(1,3) [of v] False
    show ?thesis by (simp add: winv_def)
  qed
  then show "offset s1 = length (buffer s1)" and "offset s1 \<le> BLOCK_BYTES"
    and "if length v \<le> BLOCK_BYTES
         then if offset s + length v \<le> BLOCK_BYTES
              then lz4Stream s1 = lz4Stream s \<and> buffer s1 = buffer s @ v
              else lz4Stream s1 = lz4Stream s @ [payload s] \<and> buffer s1 = v
         else lz4Stream s1 = lz4Stream s @ payload s # butlast (pieces v) \<and>
              buffer s1 = last (pieces v) \<and> concat (pieces v) = v \<and>
              (\<forall>p \<in> set (butlast (pieces v)). length p = BLOCK_BYTES)"
    by simp_all
  assume ok: "codec_ok e" and w: "winv s" and st: "in_step e s r sz tail"
    and wc: "will_close e s1 sz"
  from save_binary_winv [OF w sb] show "winv s1" .
  from save_binary_sync [OF ok w sb wc st]
  show "\<exists>r1. load_binary e r (length v) = Inr (v, r1) \<and> in_step e s1 r1 sz tail" .
qed

lemma store_put:
  "\<not> first_block s \<Longrightarrow> \<exists>s1. put store_env f s v = Inr s1 \<and> \<not> first_block s1"
  by (simp add: put_def flushBlock_def store_env_def Let_def)

lemma winv_header_only: "winv demo_header_only"
  by (simp add: winv_def demo_header_only_def hdr_len_def headSz_def BLOCK_BYTES_def)

lemma store_flush_first:
  assumes "first_block s" and "72 \<le> length (buffer s)" and "head_compression (buffer s) = 0"
    and "headSz \<le> offset s"
  shows "\<exists>sz. flushBlock store_env s = Inr sz"
  using assms by (simp add: flushBlock_def store_env_def Let_def)

lemma store_flush_later: "\<not> first_block s \<Longrightarrow> \<exists>sz. flushBlock store_env s = Inr sz"
  by (simp add: flushBlock_def store_env_def Let_def)

lemma store_save_binary:
  "\<not> first_block s \<Longrightarrow> \<exists>s1. save_binary store_env s v = Inr s1 \<and> \<not> first_block s1"
proof (induction v arbitrary: s rule: binary_steps.induct)
  case (1 src)
  show ?case
  proof (cases "BLOCK_BYTES < length src")
    case True
    from store_put [OF "1.prems"] obtain s2 where
      p: "put store_env True s (take BLOCK_BYTES src) = Inr s2" and nf: "\<not> first_block s2"
      by blast
    from "1.IH" [OF True nf] obtain s1 where
      "save_binary store_env s2 (drop BLOCK_BYTES src) = Inr s1" and "\<not> first_block s1"
      by blast
    with True p show ?thesis
      by (simp add: save_binary_unfold [of store_env s src])
  next
    case False
    from store_put [OF "1.prems"] obtain s1 where
      "put store_env False s src = Inr s1" and "\<not> first_block s1"
      by blast
    with False show ?thesis
      by (simp add: save_binary_unfold [of store_env s src])
  qed
qed

lemma demo_reached:
  "SaveArchive_initBlock store_env [] =
     Inr \<lparr>stream = [], buffer = [], offset = 0, first_block = True, lz4Stream = []\<rparr>"
  "save store_env \<lparr>stream = [], buffer = [], offset = 0, first_block = True, lz4Stream = []\<rparr>
     (header_bytes header_v11) = Inr demo_header_only"
  "save store_env demo_header_only [1, 2, 3] = Inr demo_first"
  by (simp_all add: SaveArchive_initBlock_def store_env_def save_def demo_header_only_def
        demo_first_def headSz_def BLOCK_BYTES_def memcpy_at_def)

lemma demo_first_put:
  assumes "f \<or> BLOCK_BYTES < 83 + length v"
  shows "\<exists>s1. put store_env f demo_first v = Inr s1 \<and> \<not> first_block s1"
proof -
  from demo_first_flush obtain s' where fl: "flushBlock store_env demo_first = Inr s'" ..
  have o: "offset demo_first = 83"
    by (simp add: demo_first_def)
  from flushBlock_not_first [OF fl] fl o assms show ?thesis
    by (auto simp: put_def)
qed

lemma pieces_two:
  "pieces (replicate 65537 x) = [replicate 65536 x, [x]]"
proof -
  let ?v = "replicate 65537 x"
  have big: "BLOCK_BYTES < length ?v" and small: "\<not> BLOCK_BYTES < length (drop BLOCK_BYTES ?v)"
    by (simp_all add: BLOCK_BYTES_def)
  have t: "take BLOCK_BYTES ?v = replicate 65536 x" and d: "drop BLOCK_BYTES ?v = [x]"
    by (simp_all add: BLOCK_BYTES_def)
  have "binary_steps ?v = [(True, take BLOCK_BYTES ?v), (False, drop BLOCK_BYTES ?v)]"
    using big small
    by (simp only: binary_steps.simps [of ?v] binary_steps.simps [of "drop BLOCK_BYTES ?v"]
          if_True if_False)
  then show ?thesis
    by (simp only: pieces_def t d list.map snd_conv)
qed

lemma winv_demo_first: "winv demo_first"
  by (simp add: winv_def demo_first_def hdr_len_def headSz_def BLOCK_BYTES_def)

lemma payload_demo_first: "payload demo_first = [1, 2, 3]" "lz4Stream demo_first = []"
  by (simp_all add: payload_def hdr_len_def demo_first_def headSz_def)

lemma winv_block: "winv s \<Longrightarrow> offset s = length (buffer s) \<and> offset s \<le> BLOCK_BYTES"
  by (simp add: winv_def)


text \<open>
  C9 as stated fails for a byte range longer than a block.  On a new archive the
  header and three bytes are saved; of 65537 bytes then saved with \<open>save_binary\<close>, the
  first 65536 are flushed as a block of their own and the last one lies in the next
  block.
\<close>

theorem chunking_counterexample:
  "\<exists>s0 sh sa s1.
     SaveArchive_initBlock store_env [] = Inr s0 \<and>
     save store_env s0 (header_bytes header_v11) = Inr sh \<and>
     save store_env sh [1, 2, 3] = Inr sa \<and>
     save_binary store_env sa (replicate 65537 7) = Inr s1 \<and>
     lz4Stream s1 = [[1, 2, 3], replicate 65536 7] \<and> buffer s1 = [7]"
proof -
  let ?v = "replicate 65537 (7 :: byte)"
  have big: "BLOCK_BYTES < length ?v"
    by (simp add: BLOCK_BYTES_def)
  from demo_first_put [of True "take BLOCK_BYTES ?v"] obtain s2 where
    p: "put store_env True demo_first (take BLOCK_BYTES ?v) = Inr s2" and nf: "\<not> first_block s2"
    by blast
  from store_save_binary [OF nf] obtain s1 where
    "save_binary store_env s2 (drop BLOCK_BYTES ?v) = Inr s1"
    by blast
  with big p have sb: "save_binary store_env demo_first ?v = Inr s1"
    by (simp only: save_binary_unfold [of store_env demo_first ?v] if_True sum.case)
  from save_binary_large [OF winv_demo_first sb big]
  have "lz4Stream s1 = [[1, 2, 3], replicate 65536 7] \<and> buffer s1 = [7]"
    by (simp add: pieces_two payload_demo_first)
  with demo_reached sb show ?thesis
    by blast
qed

text \<open>
  A run of the agreement.  On a new archive the header and three bytes are saved,
  then 65534 bytes that do not fit behind them, then a byte range of 65537 bytes, and
  the archive is flushed.  The reader opened on the file, with the sentinel behind it,
  loads the header, the three bytes from the same block, the 65534 bytes from the
  start of the second block, and the byte range from the third and fourth.
\<close>

theorem chunking_agreement_witness:
  "\<exists>s0 sh sa sb sc sz r0 head rh ra rb rc.
     SaveArchive_initBlock store_env [] = Inr s0 \<and>
     offset s0 = length (buffer s0) \<and> offset s0 \<le> BLOCK_BYTES \<and>
     save store_env s0 (header_bytes header_v11) = Inr sh \<and>
     save store_env sh [1, 2, 3] = Inr sa \<and>
     lz4Stream sa = [] \<and> buffer sa = header_bytes header_v11 @ [1, 2, 3] \<and>
     save store_env sa (replicate 65534 7) = Inr sb \<and>
     lz4Stream sb = [[1, 2, 3]] \<and> buffer sb = replicate 65534 7 \<and>
     save_binary store_env sb (replicate 65537 9) = Inr sc \<and>
     lz4Stream sc = [[1, 2, 3], replicate 65534 7, replicate 65536 9] \<and> buffer sc = [9] \<and>
     flushBlock store_env sc = Inr sz \<and>
     LoadArchive_initBlock store_env \<lparr>data = stream sz @ le_bytes 8 0, pos = 0\<rparr> = Inr r0 \<and>
     load store_env r0 headSz = Inr (head, rh) \<and>
     load store_env rh 3 = Inr ([1, 2, 3], ra) \<and> ptr ra = 83 \<and>
     load store_env ra 65534 = Inr (replicate 65534 7, rb) \<and> ptr rb = 65534 \<and>
     load_binary store_env rb 65537 = Inr (replicate 65537 9, rc)"
proof -
  let ?e = store_env
  let ?tail = "le_bytes 8 0"
  let ?s0 = "\<lparr>stream = [], buffer = [], offset = 0, first_block = True, lz4Stream = []\<rparr>"
  let ?v1 = "[1, 2, 3 :: byte]"
  let ?v2 = "replicate 65534 (7 :: byte)"
  let ?v3 = "replicate 65537 (9 :: byte)"
  have l1: "length ?v1 = 3" and l2: "length ?v2 = 65534" and l3: "length ?v3 = 65537"
    by simp_all
  note ok = codec_ok_store_env
  txt \<open>The writer.\<close>
  have i0: "SaveArchive_initBlock ?e [] = Inr ?s0"
    and svh: "save ?e ?s0 (header_bytes header_v11) = Inr demo_header_only"
    and sv1: "save ?e demo_header_only ?v1 = Inr demo_first"
    by (rule demo_reached)+
  from demo_first_put [of False ?v2] obtain sb where
    p2: "put ?e False demo_first ?v2 = Inr sb" and nfb: "\<not> first_block sb"
    by (auto simp: BLOCK_BYTES_def)
  have sv2: "save ?e demo_first ?v2 = Inr sb"
    using p2 by (simp add: save_put BLOCK_BYTES_def)
  from store_save_binary [OF nfb] obtain sc where
    sv3: "save_binary ?e sb ?v3 = Inr sc" and nfc: "\<not> first_block sc"
    by blast
  from store_flush_later [OF nfc] obtain sz where fl: "flushBlock ?e sc = Inr sz" ..
  have p1: "put ?e False demo_header_only ?v1 = Inr demo_first"
    using sv1 by (simp add: save_put BLOCK_BYTES_def)
  have vs1: "valid_step (False, ?v1)" and vs2: "valid_step (False, ?v2)"
    by (simp_all add: valid_step_def BLOCK_BYTES_def)
  have wh: "winv demo_header_only"
    by (rule winv_header_only)
  have wa: "winv demo_first"
    by (rule winv_demo_first)
  have wb: "winv sb"
    by (rule save_winv [OF wa sv2])
  have wcc: "will_close ?e sc sz"
    unfolding will_close_def using fl by (intro exI [of _ "[]"] exI [of _ sc]) simp
  have "puts ?e sb (binary_steps ?v3) = Inr sc"
    using sv3 by (simp add: save_binary_puts)
  from will_close_puts [OF binary_steps_valid this wcc] have wcb: "will_close ?e sb sz" .
  from will_close_put [OF vs2 p2 wcb] have wca: "will_close ?e demo_first sz" .
  from will_close_put [OF vs1 p1 wca] have wch: "will_close ?e demo_header_only sz" .
  txt \<open>The reader on the file.\<close>
  from will_close_wfut [OF wa wca] obtain cur rest where f1: "wfut ?e demo_first sz cur rest"
    by blast
  have stay: "\<not> (False \<or> BLOCK_BYTES < offset demo_header_only + length ?v1)"
    by (simp add: demo_header_only_def headSz_def BLOCK_BYTES_def)
  from wfut_back [OF wh vs1 p1 f1] stay
  have f0: "wfut ?e demo_header_only sz cur rest"
    and "\<exists>suf. cur = payload demo_header_only @ ?v1 @ suf"
    by simp_all
  then have ne: "cur \<noteq> []"
    by auto
  have nv: "\<not> is_v10 (header_bytes header_v11)"
    by (rule v11_not_v10) simp
  from reader_init [OF ok store_malloc store_malloc store_malloc _ _ nv f0 ne, of ?tail]
  obtain r0 head rh where
    ri: "LoadArchive_initBlock ?e \<lparr>data = stream sz @ ?tail, pos = 0\<rparr> = Inr r0"
    and lh: "load ?e r0 headSz = Inr (head, rh)"
    and rs: "rsync ?e demo_header_only rh cur rest ?tail"
    by (auto simp: demo_header_only_def headSz_def)
  have sth: "in_step ?e demo_header_only rh sz ?tail"
    unfolding in_step_def using f0 rs by blast
  have ph: "ptr rh = 80"
    using rs by (simp add: rsync_def demo_header_only_def headSz_def)
  txt \<open>The three values.\<close>
  note ca = chunking_agreement [where e = ?e and sz = sz and tail = ?tail]
  from ca [where out = "[]"] i0
  have b0: "offset ?s0 = length (buffer ?s0) \<and> offset ?s0 \<le> BLOCK_BYTES"
    by blast
  have oh: "offset demo_header_only + length ?v1 \<le> BLOCK_BYTES"
    by (simp add: demo_header_only_def headSz_def BLOCK_BYTES_def)
  from ca [where s = demo_header_only and v = ?v1 and r = rh] winv_block [OF wh] sv1 ok wh sth wca
  have "\<exists>r1. load ?e rh (length ?v1) = Inr (?v1, r1) \<and> in_step ?e demo_first r1 sz ?tail \<and>
             (if ptr rh + length ?v1 \<le> block_sz rh then r1 = rh\<lparr>ptr := ptr rh + length ?v1\<rparr>
              else ptr r1 = length ?v1 \<and> take (length ?v1) (in_buffer r1) = ?v1 \<and>
                   lz4StreamDecode r1 = lz4StreamDecode rh @ [in_buffer r1])"
    and t1: "ptr rh + length ?v1 \<le> block_sz rh \<longleftrightarrow> offset demo_header_only + length ?v1 \<le> BLOCK_BYTES"
    by blast+
  with oh obtain ra where la: "load ?e rh (length ?v1) = Inr (?v1, ra)"
    and sta: "in_step ?e demo_first ra sz ?tail" and ra: "ra = rh\<lparr>ptr := ptr rh + length ?v1\<rparr>"
    by auto
  have pa: "ptr ra = 83"
    using ra ph by simp
  have oa: "\<not> offset demo_first + length ?v2 \<le> BLOCK_BYTES"
    by (simp add: demo_first_def BLOCK_BYTES_def)
  from ca [where s = demo_first and v = ?v2 and r = ra] winv_block [OF wa] sv2 ok wa sta wcb
  have "if offset demo_first + length ?v2 \<le> BLOCK_BYTES
         then lz4Stream sb = lz4Stream demo_first \<and> buffer sb = buffer demo_first @ ?v2
         else lz4Stream sb = lz4Stream demo_first @ [payload demo_first] \<and> buffer sb = ?v2"
    and "\<exists>r1. load ?e ra (length ?v2) = Inr (?v2, r1) \<and> in_step ?e sb r1 sz ?tail \<and>
             (if ptr ra + length ?v2 \<le> block_sz ra then r1 = ra\<lparr>ptr := ptr ra + length ?v2\<rparr>
              else ptr r1 = length ?v2 \<and> take (length ?v2) (in_buffer r1) = ?v2 \<and>
                   lz4StreamDecode r1 = lz4StreamDecode ra @ [in_buffer r1])"
    and t2: "ptr ra + length ?v2 \<le> block_sz ra \<longleftrightarrow> offset demo_first + length ?v2 \<le> BLOCK_BYTES"
    by blast+
  with oa obtain rb where wsb: "lz4Stream sb = [[1, 2, 3]]" "buffer sb = ?v2"
    and lb: "load ?e ra 65534 = Inr (?v2, rb)"
    and stb: "in_step ?e sb rb sz ?tail" and pb: "ptr rb = 65534"
    by (auto simp: payload_demo_first)
  have big: "\<not> length ?v3 \<le> BLOCK_BYTES"
    by (simp add: BLOCK_BYTES_def)
  have plb: "payload sb = ?v2"
    using nfb wsb by (simp add: payload_def hdr_len_def)
  from ca [where s = sb and v = ?v3 and r = rb] winv_block [OF wb] sv3 ok wb stb wcc
  have "if length ?v3 \<le> BLOCK_BYTES
         then if offset sb + length ?v3 \<le> BLOCK_BYTES
              then lz4Stream sc = lz4Stream sb \<and> buffer sc = buffer sb @ ?v3
              else lz4Stream sc = lz4Stream sb @ [payload sb] \<and> buffer sc = ?v3
         else lz4Stream sc = lz4Stream sb @ payload sb # butlast (pieces ?v3) \<and>
              buffer sc = last (pieces ?v3) \<and> concat (pieces ?v3) = ?v3 \<and>
              (\<forall>p \<in> set (butlast (pieces ?v3)). length p = BLOCK_BYTES)"
    and "\<exists>r1. load_binary ?e rb (length ?v3) = Inr (?v3, r1) \<and> in_step ?e sc r1 sz ?tail"
    by blast+
  with big obtain rc where wsc: "lz4Stream sc = [[1, 2, 3], ?v2, replicate 65536 9]"
    "buffer sc = [9]" and lc: "load_binary ?e rb 65537 = Inr (?v3, rc)"
    by (auto simp: pieces_two wsb plb)
  have wsa: "lz4Stream demo_first = []" "buffer demo_first = header_bytes header_v11 @ [1, 2, 3]"
    by (simp_all add: demo_first_def)
  from la have la': "load ?e rh 3 = Inr (?v1, ra)"
    by (simp only: l1)
  from i0 b0 svh sv1 wsa sv2 wsb sv3 wsc fl ri lh la' pa lb pb lc show ?thesis
    by blast
qed

section \<open>Whole files: saving and loading again\<close>

lemma save_header_first:
  assumes "malloc_ok e (BLOCK_BYTES * 2)" and "malloc_ok e (LZ4_COMPRESSBOUND e BLOCK_BYTES + 8)"
  shows "save_file e h vs =
     (case save_elements (as_SaveArchive e)
             \<lparr>stream = [], buffer = header_bytes h, offset = headSz, first_block = True,
              lz4Stream = []\<rparr> vs of
        Inl err \<Rightarrow> Inl err
      | Inr s2 \<Rightarrow>
          (case SaveArchive_close e s2 of Inl err \<Rightarrow> Inl err | Inr s3 \<Rightarrow> Inr (stream s3)))"
  using assms
  by (simp add: save_file_def SaveArchive_initBlock_def as_SaveArchive_def save_def
        BLOCK_BYTES_def memcpy_at_def headSz_def)

text \<open>
  The assertion of \<open>save\<close>: an array of \<open>BLOCK_BYTES\<close> bytes has a serializer, and saving it
  stops there.
\<close>

lemma oversized_array_asserts:
  "save_file store_env header_v11 [Array (replicate 65536 0)] = Inl AssertSizeof"
  by (simp add: save_header_first) (simp add: as_SaveArchive_def save_def BLOCK_BYTES_def)

lemma empty_first_block_rejected:
  assumes "malloc_ok e headSz" and "malloc_ok e (BLOCK_BYTES * 2)"
    and "malloc_ok e (LZ4_COMPRESSBOUND e BLOCK_BYTES)"
    and "fread f headSz = Some (head, f1)" and "\<not> is_v10 head"
    and "head_first_block_size head < LZ4_COMPRESSBOUND e BLOCK_BYTES"
    and "fread f1 (head_first_block_size head) = Some (c, f2)"
    and "LZ4_decompress_safe_continue e [] c BLOCK_BYTES = Some []"
  shows "LoadArchive_initBlock e f = Inl DecompressBlock"
  using assms by (simp add: LoadArchive_initBlock_def loadBlock_def Let_def)

text \<open>
  C1.  A file that holds the header and a byte range of length 0 is written, and is
  refused when it is opened: the first block has an empty payload, and \<open>loadBlock\<close>
  takes a block that decompresses to nothing for an error.
\<close>

theorem empty_first_block_fails:
  "\<exists>bs. save_file store_env header_v11 [Binary []] = Inr bs \<and>
          load_file store_env bs [TBinary 0] = Inl DecompressBlock"
proof -
  let ?h = "header_bytes header_v11"
  define head' where "head' = take 64 ?h @ le_bytes 8 1 @ le_bytes 8 1"
  define bs where "bs = head' @ [0] @ le_bytes 8 0"
  let ?s = "\<lparr>stream = [], buffer = ?h, offset = headSz, first_block = True, lz4Stream = []\<rparr>"
  have sb: "save_binary store_env ?s [] = Inr ?s"
    by (simp add: save_binary_unfold [of _ _ "[]"] put_def memcpy_at_def headSz_def
          BLOCK_BYTES_def)
  have w: "winv ?s"
    by (simp add: winv_def hdr_len_def headSz_def BLOCK_BYTES_def)
  have "\<exists>sz. flushBlock store_env ?s = Inr sz"
    by (rule store_flush_first) (simp_all add: header_v11_def headSz_def)
  then obtain sz where fl: "flushBlock store_env ?s = Inr sz" ..
  have "stream sz = head' @ [0]"
    using flushBlock_winv [OF w fl]
    by (simp add: chunk_of_def payload_def hdr_len_def headSz_def store_env_def head'_def
             del: le_bytes_numeral)
  then have sv: "save_file store_env header_v11 [Binary []] = Inr bs"
    using sb fl
    by (simp add: save_header_first as_SaveArchive_def SaveArchive_close_def
          SaveArchive_endBlock_def bs_def del: le_bytes_numeral)
  let ?f = "\<lparr>data = bs, pos = 0\<rparr>"
  have lh: "length head' = headSz"
    by (simp add: head'_def headSz_def del: le_bytes_numeral)
  then have hne: "head' \<noteq> []"
    by (auto simp: headSz_def)
  have d0: "drop (pos ?f) (data ?f) = head' @ ([0] @ le_bytes 8 0)"
    by (simp add: bs_def del: le_bytes_numeral)
  define f1 where "f1 = ?f\<lparr>pos := pos ?f + length head'\<rparr>"
  have r1: "fread ?f headSz = Some (head', f1)"
    and d1: "drop (pos f1) (data f1) = [0] @ le_bytes 8 0"
    using fread_prefix [OF d0 hne] lh by (simp_all add: f1_def del: le_bytes_numeral)
  have r2: "fread f1 (length [0 :: byte]) = Some ([0], f1\<lparr>pos := pos f1 + length [0 :: byte]\<rparr>)"
    by (rule fread_prefix(1) [OF d1]) simp
  have nv: "\<not> is_v10 head'"
    using is_v10_patched [of ?h "le_bytes 8 1 @ le_bytes 8 1"] v11_not_v10 [of header_v11]
    by (simp add: head'_def del: le_bytes_numeral)
  have fbs: "head_first_block_size head' = 1"
    unfolding head'_def by (rule first_block_size_patched) simp_all
  have "LoadArchive_initBlock store_env ?f = Inl DecompressBlock"
  proof (rule empty_first_block_rejected [OF _ _ _ r1 nv])
    show "head_first_block_size head' < LZ4_COMPRESSBOUND store_env BLOCK_BYTES"
      by (simp add: fbs store_bound)
    show "fread f1 (head_first_block_size head') = Some ([0], f1\<lparr>pos := pos f1 + length [0 :: byte]\<rparr>)"
      using r2 by (simp add: fbs)
    show "LZ4_decompress_safe_continue store_env [] [0] BLOCK_BYTES = Some []"
      by (simp add: store_env_def)
  qed simp_all
  then have "load_file store_env bs [TBinary 0] = Inl DecompressBlock"
    by (simp add: load_file_def)
  with sv show ?thesis by blast
qed

end
